theory Spec2Isabelle
  imports Main
begin

section \<open>readFile.c: whole-file reader and line splitter\<close>

text \<open>
  A shallow embedding of \<^verbatim>\<open>readFile.c\<close> (\<^verbatim>\<open>Strchr\<close>, \<^verbatim>\<open>readFile\<close>, \<^verbatim>\<open>readLines\<close>,
  \<^verbatim>\<open>freeLines\<close>). The C functions work on \<^verbatim>\<open>errno\<close> and on malloc'ed storage, so the
  model passes a state with both; the C library calls are answered by an environment.

  Modelling decisions, all visible in the definitions below:
  \<^item> A \<^verbatim>\<open>char\<close> is a byte (\<^typ>\<open>char\<close>). Plain \<^verbatim>\<open>char\<close> is signed, as on the platforms
    the file names (Apple clang, Microsoft C): \<open>char_val\<close> is the value a \<^verbatim>\<open>char\<close> has
    after promotion to \<^verbatim>\<open>int\<close>, \<open>to_char\<close> the conversion \<^verbatim>\<open>const char c1 = c\<close>.
  \<^item> \<^verbatim>\<open>size_t\<close> values are \<^typ>\<open>nat\<close>. \<^verbatim>\<open>ftell\<close> returns a non-negative \<^verbatim>\<open>long\<close>, so
    \<^verbatim>\<open>fsize + t\<close> cannot wrap; \<^verbatim>\<open>(lnCnt + 1) * sizeof(*lines)\<close> could wrap only for a
    content buffer of at least \<open>2^61 - 1\<close> bytes, which a 64-bit allocator does not grant.
    A pointer is 8 bytes wide.
  \<^item> Storage is a list of blocks, one per successful allocation, in allocation order;
    a freed block stays in the list as \<open>None\<close>. A pointer is a block number and an offset;
    \<^verbatim>\<open>malloc\<close> and \<^verbatim>\<open>realloc\<close> return the number of the new block, whose start
    \<open>Ptr b 0\<close> is the pointer the C code holds.
  \<^item> A read or write outside a block, and a \<^verbatim>\<open>free\<close> of anything but the start of a live
    block, is undefined behaviour in C: the model returns a \<open>fault\<close> there.
  \<^item> The stream is a regular file that does not change during the call: \<^verbatim>\<open>ftell\<close> after a
    successful \<^verbatim>\<open>fseek\<close> returns its size, \<^verbatim>\<open>fread\<close> delivers all requested bytes unless
    the environment reports a read error, \<^verbatim>\<open>rewind\<close> and \<^verbatim>\<open>fclose\<close> leave \<^verbatim>\<open>errno\<close> alone.
\<close>

subsection \<open>Characters\<close>

definition NUL :: char where "NUL = CHR 0x00"
definition CR :: char where "CR = CHR 0x0D"
definition LF :: char where "LF = CHR 0x0A"

definition char_val :: "char \<Rightarrow> int" where
  "char_val ch = (if of_char ch < (128::int) then of_char ch else of_char ch - 256)"

definition to_char :: "int \<Rightarrow> char" where
  "to_char c = char_of c"

subsection \<open>Storage, errno and the C library\<close>

type_synonym errno_t = int

definition EINVAL :: errno_t where "EINVAL = 22"
definition EFBIG :: errno_t where "EFBIG = 27"
definition TRUE :: int where "TRUE = 1"
definition sizeof_ptr :: nat where "sizeof_ptr = 8"

datatype fault = OutOfBounds | InvalidFree | Uninitialised

datatype ptr = Ptr nat nat

datatype cell = Indet | Val "ptr option"

datatype obj = Chars "char list" | Cells "cell list"

record cstate =
  errno :: errno_t
  heap :: "obj option list"

text \<open>
  The environment: for each library call that can fail, whether it does and the error
  number it then stores in \<^verbatim>\<open>errno\<close>.
  \<^item> \<open>fopen_r\<close>: \<open>Inl ec\<close> when \<^verbatim>\<open>fopen\<close> fails, \<open>Inr bytes\<close> when it opens a file holding
    \<open>bytes\<close>;
  \<^item> \<open>fseek_r\<close>: \<open>Some ec\<close> when \<^verbatim>\<open>fseek\<close> fails;
  \<^item> \<open>malloc_r k size\<close>: \<open>Some ec\<close> when the \<^verbatim>\<open>malloc\<close> of \<open>size\<close> bytes made after \<open>k\<close>
    earlier allocations returns \<^verbatim>\<open>NULL\<close>;
  \<^item> \<open>fread_r\<close>: \<open>Some (k, ec)\<close> when \<^verbatim>\<open>fread\<close> meets a read error after \<open>k\<close> bytes;
  \<^item> \<open>realloc_r\<close>: \<open>Some ec\<close> when \<^verbatim>\<open>realloc\<close> returns \<^verbatim>\<open>NULL\<close>;
  \<^item> \<open>junk\<close>: the indeterminate bytes of freshly allocated storage.
\<close>

record env =
  fopen_r :: "errno_t + char list"
  fseek_r :: "errno_t option"
  malloc_r :: "nat \<Rightarrow> nat \<Rightarrow> errno_t option"
  fread_r :: "(nat \<times> errno_t) option"
  realloc_r :: "errno_t option"
  junk :: "nat \<Rightarrow> char"

definition bindF :: "fault + 'a \<Rightarrow> ('a \<Rightarrow> fault + 'b) \<Rightarrow> fault + 'b" where
  "bindF x f = (case x of Inl e \<Rightarrow> Inl e | Inr v \<Rightarrow> f v)"

definition load :: "'a list \<Rightarrow> nat \<Rightarrow> fault + 'a" where
  "load m i = (if i < length m then Inr (m ! i) else Inl OutOfBounds)"

definition store :: "'a list \<Rightarrow> nat \<Rightarrow> 'a \<Rightarrow> fault + 'a list" where
  "store m i v = (if i < length m then Inr (m[i := v]) else Inl OutOfBounds)"

definition block_chars :: "obj option list \<Rightarrow> nat \<Rightarrow> fault + char list" where
  "block_chars h b =
     (if b < length h then (case h ! b of Some (Chars m) \<Rightarrow> Inr m | _ \<Rightarrow> Inl OutOfBounds)
      else Inl OutOfBounds)"

definition block_cells :: "obj option list \<Rightarrow> nat \<Rightarrow> fault + cell list" where
  "block_cells h b =
     (if b < length h then (case h ! b of Some (Cells m) \<Rightarrow> Inr m | _ \<Rightarrow> Inl OutOfBounds)
      else Inl OutOfBounds)"

definition put_block :: "nat \<Rightarrow> obj \<Rightarrow> cstate \<Rightarrow> cstate" where
  "put_block b x s = s\<lparr>heap := (heap s)[b := Some x]\<rparr>"

definition fopen :: "env \<Rightarrow> cstate \<Rightarrow> char list option \<times> cstate" where
  "fopen E s =
     (case fopen_r E of
        Inl ec \<Rightarrow> (None, s\<lparr>errno := ec\<rparr>)
      | Inr file \<Rightarrow> (Some file, s))"

definition fseek_end :: "env \<Rightarrow> cstate \<Rightarrow> int \<times> cstate" where
  "fseek_end E s =
     (case fseek_r E of
        Some ec \<Rightarrow> (- 1, s\<lparr>errno := ec\<rparr>)
      | None \<Rightarrow> (0, s))"

definition ftell :: "char list \<Rightarrow> nat" where
  "ftell file = length file"

definition malloc :: "env \<Rightarrow> nat \<Rightarrow> obj \<Rightarrow> cstate \<Rightarrow> nat option \<times> cstate" where
  "malloc E nbytes fresh s =
     (case malloc_r E (length (heap s)) nbytes of
        Some ec \<Rightarrow> (None, s\<lparr>errno := ec\<rparr>)
      | None \<Rightarrow> (Some (length (heap s)), s\<lparr>heap := heap s @ [Some fresh]\<rparr>))"

definition fresh_chars :: "env \<Rightarrow> nat \<Rightarrow> obj" where
  "fresh_chars E nbytes = Chars (map (junk E) [0..<nbytes])"

definition fresh_cells :: "nat \<Rightarrow> obj" where
  "fresh_cells nbytes = Cells (replicate (nbytes div sizeof_ptr) Indet)"

text \<open>
  \<^verbatim>\<open>fread(buf, 1, nmemb, in)\<close> on a stream positioned at the start of \<open>file\<close>: the new
  contents of the buffer, the count returned, and whether \<^verbatim>\<open>ferror\<close> is set afterwards.
  A request for zero items returns zero and leaves the stream alone.
\<close>

definition fread :: "env \<Rightarrow> char list \<Rightarrow> nat \<Rightarrow> char list \<Rightarrow> cstate
    \<Rightarrow> char list \<times> nat \<times> bool \<times> cstate" where
  "fread E m nmemb file s =
     (if nmemb = 0 then (m, 0, False, s)
      else case fread_r E of
        None \<Rightarrow> (let n = min nmemb (length file)
                 in (take n file @ drop n m, n, False, s))
      | Some (k, ec) \<Rightarrow> (let n = min k (min nmemb (length file))
                 in (take n file @ drop n m, n, True, s\<lparr>errno := ec\<rparr>)))"

definition free :: "ptr option \<Rightarrow> cstate \<Rightarrow> fault + cstate" where
  "free p s =
     (case p of
        None \<Rightarrow> Inr s
      | Some (Ptr b off) \<Rightarrow>
          if off = 0 \<and> b < length (heap s) \<and> heap s ! b \<noteq> None
          then Inr (s\<lparr>heap := (heap s)[b := None]\<rparr>)
          else Inl InvalidFree)"

text \<open>
  \<^verbatim>\<open>realloc\<close> of the character block \<open>b\<close>: on success the old block is gone and a new
  block holds the old contents up to the new size.
\<close>

definition realloc :: "env \<Rightarrow> nat \<Rightarrow> nat \<Rightarrow> cstate \<Rightarrow> fault + (nat option \<times> cstate)" where
  "realloc E b nbytes s =
     bindF (block_chars (heap s) b) (\<lambda>m.
       case realloc_r E of
         Some ec \<Rightarrow> Inr (None, s\<lparr>errno := ec\<rparr>)
       | None \<Rightarrow>
           Inr (Some (length (heap s)),
                s\<lparr>heap := (heap s)[b := None]
                     @ [Some (Chars (take nbytes m @ map (junk E) [length m..<nbytes]))]\<rparr>))"

subsection \<open>Strchr\<close>

text \<open>
  \<^verbatim>\<open>Strchr(s, c)\<close>, lines 44-59. The argument list is the storage from \<^verbatim>\<open>s\<close> to the end of
  its block, \<open>i\<close> the offset of \<^verbatim>\<open>s\<close> in the block. The loop condition compares with
  \<^verbatim>\<open>c1\<close>, the two unrolled tests compare the promoted \<^verbatim>\<open>char\<close> with \<^verbatim>\<open>c\<close> itself.
\<close>

fun Strchr_loop :: "char list \<Rightarrow> int \<Rightarrow> nat \<Rightarrow> fault + nat option" where
  "Strchr_loop [] c i = Inl OutOfBounds"
| "Strchr_loop (a # s) c i =
    (if a = to_char c then Inr (Some i)
     else if a = NUL then Inr None
     else (case s of
       [] \<Rightarrow> Inl OutOfBounds
     | b # s' \<Rightarrow>
        if char_val b = c then Inr (Some (Suc i))
        else if b = NUL then Inr None
        else (case s' of
          [] \<Rightarrow> Inl OutOfBounds
        | d # s'' \<Rightarrow>
           if char_val d = c then Inr (Some (Suc (Suc i)))
           else if d = NUL then Inr None
           else Strchr_loop s'' c (Suc (Suc (Suc i))))))"

definition Strchr :: "char list \<Rightarrow> nat \<Rightarrow> int \<Rightarrow> fault + nat option" where
  "Strchr m s c = Strchr_loop (drop s m) c s"

text \<open>
  The C standard's \<^verbatim>\<open>strchr\<close>, from its wording: it locates the first occurrence of \<open>c\<close>
  (converted to \<^verbatim>\<open>char\<close>) in the string; the terminating null character is part of the
  string; it returns a pointer to the located character, or a null pointer if the
  character does not occur.
\<close>

fun strchr_scan :: "char list \<Rightarrow> char \<Rightarrow> nat \<Rightarrow> fault + nat option" where
  "strchr_scan [] ch i = Inl OutOfBounds"
| "strchr_scan (a # s) ch i =
    (if a = ch then Inr (Some i)
     else if a = NUL then Inr None
     else strchr_scan s ch (Suc i))"

definition strchr :: "char list \<Rightarrow> nat \<Rightarrow> int \<Rightarrow> fault + nat option" where
  "strchr m s c = strchr_scan (drop s m) (to_char c) s"

subsection \<open>readFile\<close>

text \<open>
  The compaction loop of lines 125-129: \<^verbatim>\<open>s\<close>, \<^verbatim>\<open>d\<close> and \<^verbatim>\<open>end\<close> are offsets into the
  buffer \<open>m\<close>; the result is the buffer and the final \<^verbatim>\<open>d\<close>.
\<close>

function compact :: "char list \<Rightarrow> nat \<Rightarrow> nat \<Rightarrow> nat \<Rightarrow> fault + (char list \<times> nat)" where
  "compact m s d endp =
     (if s < endp then
        (if s < length m then
           (if m ! s \<noteq> CR then
              (if d < length m then compact (m[d := m ! s]) (Suc s) (Suc d) endp
               else Inl OutOfBounds)
            else compact m (Suc s) d endp)
         else Inl OutOfBounds)
      else Inr (m, d))"
  by pat_completeness auto
termination
  by (relation "measure (\<lambda>(m, s, d, endp). endp - s)") auto

text \<open>Lines 120-133: the terminator and the text-mode pass over the buffer \<open>m\<close>.\<close>

definition readFile_text :: "int \<Rightarrow> int \<Rightarrow> char list \<Rightarrow> nat \<Rightarrow> fault + (char list \<times> nat)" where
  "readFile_text textMode terminate m n =
     bindF (if terminate \<noteq> 0 then store m n NUL else Inr m) (\<lambda>m.
       if textMode \<noteq> 0 then
         bindF (Strchr m 0 (char_val CR)) (\<lambda>s.
           case s of
             None \<Rightarrow> Inr (m, n)
           | Some s \<Rightarrow>
               bindF (compact m s s n) (\<lambda>(m, d).
                 if terminate \<noteq> 0 then bindF (store m d NUL) (\<lambda>m. Inr (m, d))
                 else Inr (m, d)))
       else Inr (m, n))"

text \<open>Lines 134-140: the shrinking \<^verbatim>\<open>realloc\<close>; its failure is not an error.\<close>

definition readFile_shrink :: "env \<Rightarrow> nat \<Rightarrow> nat \<Rightarrow> nat \<Rightarrow> nat \<Rightarrow> cstate
    \<Rightarrow> fault + (nat \<times> cstate)" where
  "readFile_shrink E buf n t fsize s =
     (if n < fsize then
        bindF (realloc E buf (n + t) s) (\<lambda>(b, s).
          case b of
            Some b \<Rightarrow> Inr (b, s)
          | None \<Rightarrow> Inr (buf, s\<lparr>errno := 0\<rparr>))
      else Inr (buf, s))"

text \<open>Lines 117-141: what happens between a successful \<^verbatim>\<open>malloc\<close> and \<^verbatim>\<open>fclose\<close>.\<close>

definition readFile_filled :: "env \<Rightarrow> char list \<Rightarrow> nat \<Rightarrow> int \<Rightarrow> int \<Rightarrow> nat \<Rightarrow> nat \<Rightarrow> cstate
    \<Rightarrow> fault + (nat \<times> nat \<times> cstate)" where
  "readFile_filled E file fsize textMode terminate t buf s =
     bindF (block_chars (heap s) buf) (\<lambda>m.
       case fread E m fsize file s of (m, n, ferror, s) \<Rightarrow>
         if \<not> ferror then
           bindF (readFile_text textMode terminate m n) (\<lambda>(m, n).
             bindF (readFile_shrink E buf n t fsize (put_block buf (Chars m) s)) (\<lambda>(buf, s).
               Inr (buf, n, s)))
         else Inr (buf, n, put_block buf (Chars m) s))"

record rf_result =
  rf_buf :: "ptr option"
  rf_length :: "nat option"

text \<open>Lines 150-160: the exit of \<^verbatim>\<open>readFile\<close>; \<open>e\<close> is the value of \<^verbatim>\<open>errno\<close> on entry.\<close>

definition readFile_exit :: "errno_t \<Rightarrow> bool \<Rightarrow> nat \<Rightarrow> ptr option \<Rightarrow> cstate
    \<Rightarrow> fault + (rf_result \<times> cstate)" where
  "readFile_exit e want_length n buf s =
     (if errno s \<noteq> 0 then
        bindF (free buf s) (\<lambda>s.
          Inr (\<lparr>rf_buf = None, rf_length = (if want_length then Some 0 else None)\<rparr>, s))
      else
        Inr (\<lparr>rf_buf = buf, rf_length = (if want_length then Some n else None)\<rparr>,
             s\<lparr>errno := e\<rparr>))"

text \<open>
  \<^verbatim>\<open>readFile(fileName, textMode, terminate, maxSize, length)\<close>. \<open>fileName\<close> is \<open>None\<close> for
  a null pointer; \<open>want_length\<close> says that \<^verbatim>\<open>length\<close> is not null, and \<open>rf_length\<close> is
  then what is stored in \<^verbatim>\<open>*length\<close>.
\<close>

definition readFile :: "env \<Rightarrow> string option \<Rightarrow> int \<Rightarrow> int \<Rightarrow> nat \<Rightarrow> bool \<Rightarrow> cstate
    \<Rightarrow> fault + (rf_result \<times> cstate)" where
  "readFile E fileName textMode terminate maxSize want_length s =
     (let e = errno s in
      case fileName of
        None \<Rightarrow> readFile_exit e want_length 0 None (s\<lparr>errno := EINVAL\<rparr>)
      | Some name \<Rightarrow>
          (let terminate = (if textMode \<noteq> 0 then TRUE else terminate);
               t = (if terminate \<noteq> 0 then 1 else 0)
           in case fopen E (s\<lparr>errno := 0\<rparr>) of
                (None, s) \<Rightarrow> readFile_exit e want_length 0 None s
              | (Some file, s) \<Rightarrow>
                  (case fseek_end E s of (rc, s) \<Rightarrow>
                     if rc = 0 then
                       (let fsize = ftell file in
                        if maxSize = 0 \<or> fsize + t \<le> maxSize then
                          (case malloc E (fsize + t) (fresh_chars E (fsize + t)) s of
                             (None, s) \<Rightarrow> readFile_exit e want_length 0 None s
                           | (Some buf, s) \<Rightarrow>
                               bindF (readFile_filled E file fsize textMode terminate t buf s)
                                 (\<lambda>(buf, n, s).
                                    readFile_exit e want_length n (Some (Ptr buf 0)) s))
                        else readFile_exit e want_length 0 None (s\<lparr>errno := EFBIG\<rparr>))
                     else readFile_exit e want_length 0 None s)))"

subsection \<open>readLines and freeLines\<close>

text \<open>The counting loop of lines 205-206; \<open>p\<close> is an offset into the buffer \<open>m\<close>.\<close>

function count_lines :: "char list \<Rightarrow> nat \<Rightarrow> nat \<Rightarrow> fault + nat" where
  "count_lines m p lnCnt =
     (case Strchr m p (char_val LF) of
        Inl f \<Rightarrow> Inl f
      | Inr None \<Rightarrow> Inr lnCnt
      | Inr (Some q) \<Rightarrow> count_lines m (Suc q) (Suc lnCnt))"
  by pat_completeness auto
termination
proof (relation "measure (\<lambda>(m, p, lnCnt). length m - p)")
  show "wf (measure (\<lambda>(m, p, lnCnt). length m - p))"
    by simp
next
  fix m :: "char list" and p lnCnt :: nat and x q
  assume found: "Strchr m p (char_val LF) = Inr x" "x = Some q"
  have bounds: "Strchr_loop s c i = Inr (Some r) \<Longrightarrow> i \<le> r \<and> r < i + length s" for s c i r
    by (induction s c i rule: Strchr_loop.induct) (auto split: if_splits list.splits)
  from found have "p \<le> q \<and> q < p + length (drop p m)"
    using bounds [of "drop p m" "char_val LF" p q] by (simp add: Strchr_def)
  then show "((m, Suc q, Suc lnCnt), (m, p, lnCnt)) \<in> measure (\<lambda>(m, p, lnCnt). length m - p)"
    by auto
qed

text \<open>
  The splitting loop of lines 214-218 over the buffer \<open>m\<close> (block \<open>buf\<close>) and the table
  \<open>tab\<close>; \<open>p\<close> is an offset into the buffer, \<open>ln\<close> an index into the table.
\<close>

function split_lines :: "nat \<Rightarrow> char list \<Rightarrow> cell list \<Rightarrow> nat \<Rightarrow> nat
    \<Rightarrow> fault + (char list \<times> cell list \<times> nat)" where
  "split_lines buf m tab p ln =
     (case Strchr m p (char_val LF) of
        Inl f \<Rightarrow> Inl f
      | Inr None \<Rightarrow> Inr (m, tab, ln)
      | Inr (Some q) \<Rightarrow>
          (if Suc q < length m then
             (if m[q := NUL] ! Suc q \<noteq> NUL then
                (if ln < length tab
                 then split_lines buf (m[q := NUL]) (tab[ln := Val (Some (Ptr buf (Suc q)))])
                        (Suc q) (Suc ln)
                 else Inl OutOfBounds)
              else split_lines buf (m[q := NUL]) tab (Suc q) ln)
           else Inl OutOfBounds))"
  by pat_completeness auto
termination
proof (relation "measure (\<lambda>(buf, m, tab, p, ln). length m - p)")
  show "wf (measure (\<lambda>(buf, m, tab, p, ln). length m - p))"
    by simp
next
  fix buf :: nat and m :: "char list" and tab :: "cell list" and p ln :: nat and x q
  assume found: "Strchr m p (char_val LF) = Inr x" "x = Some q"
  have bounds: "Strchr_loop s c i = Inr (Some r) \<Longrightarrow> i \<le> r \<and> r < i + length s" for s c i r
    by (induction s c i rule: Strchr_loop.induct) (auto split: if_splits list.splits)
  from found have pq: "p \<le> q \<and> q < p + length (drop p m)"
    using bounds [of "drop p m" "char_val LF" p q] by (simp add: Strchr_def)
  {
    assume "Suc q < length m"
    with pq show "((buf, m[q := NUL], tab[ln := Val (Some (Ptr buf (Suc q)))], Suc q, Suc ln),
        (buf, m, tab, p, ln)) \<in> measure (\<lambda>(buf, m, tab, p, ln). length m - p)"
      by auto
  }
  {
    assume "Suc q < length m"
    with pq show "((buf, m[q := NUL], tab, Suc q, ln), (buf, m, tab, p, ln))
        \<in> measure (\<lambda>(buf, m, tab, p, ln). length m - p)"
      by auto
  }
qed

record rl_result =
  rl_lines :: "ptr option"
  rl_lineCount :: "nat option"

text \<open>Lines 230-240: the exit of \<^verbatim>\<open>readLines\<close>.\<close>

definition readLines_exit :: "errno_t \<Rightarrow> bool \<Rightarrow> nat \<Rightarrow> ptr option \<Rightarrow> ptr option \<Rightarrow> cstate
    \<Rightarrow> fault + (rl_result \<times> cstate)" where
  "readLines_exit e want_lineCount lnCnt buf lines s =
     (if errno s \<noteq> 0 then
        bindF (free buf s) (\<lambda>s.
          Inr (\<lparr>rl_lines = lines, rl_lineCount = (if want_lineCount then Some 0 else None)\<rparr>, s))
      else
        Inr (\<lparr>rl_lines = lines, rl_lineCount = (if want_lineCount then Some lnCnt else None)\<rparr>,
             s\<lparr>errno := e\<rparr>))"

text \<open>
  Lines 210-223: the table has been allocated as block \<open>lines\<close>; \<open>buf\<close> is the block of
  the text, \<open>m\<close> its contents.
\<close>

definition readLines_fill :: "errno_t \<Rightarrow> bool \<Rightarrow> nat \<Rightarrow> nat \<Rightarrow> char list \<Rightarrow> nat \<Rightarrow> nat
    \<Rightarrow> cstate \<Rightarrow> fault + (rl_result \<times> cstate)" where
  "readLines_fill e want_lineCount lnCnt buf m length' lines s =
     bindF (block_cells (heap s) lines) (\<lambda>tab.
       if length' \<noteq> 0 then
         bindF (store tab 0 (Val (Some (Ptr buf 0)))) (\<lambda>tab.
           bindF (split_lines buf m tab 0 1) (\<lambda>(m, tab, ln).
             bindF (store tab ln (Val None)) (\<lambda>tab.
               readLines_exit e want_lineCount lnCnt (Some (Ptr buf 0)) (Some (Ptr lines 0))
                 (put_block lines (Cells tab) (put_block buf (Chars m) s)))))
       else
         bindF (free (Some (Ptr buf 0)) s) (\<lambda>s.
           bindF (store tab 0 (Val None)) (\<lambda>tab.
             readLines_exit e want_lineCount lnCnt None (Some (Ptr lines 0))
               (put_block lines (Cells tab) s))))"

text \<open>Lines 204-228: \<^verbatim>\<open>readFile\<close> has returned the buffer \<open>buf\<close> and stored \<open>length'\<close>.\<close>

definition readLines_split :: "env \<Rightarrow> errno_t \<Rightarrow> bool \<Rightarrow> nat \<Rightarrow> nat \<Rightarrow> nat \<Rightarrow> cstate
    \<Rightarrow> fault + (rl_result \<times> cstate)" where
  "readLines_split E e want_lineCount maxSize buf length' s =
     bindF (block_chars (heap s) buf) (\<lambda>m.
       bindF (if length' \<noteq> 0
              then bindF (load m (length' - 1)) (\<lambda>ch. Inr (if ch \<noteq> LF then 1 else 0))
              else Inr 0) (\<lambda>lnCnt.
         bindF (count_lines m 0 lnCnt) (\<lambda>lnCnt.
           let linesSize = (lnCnt + 1) * sizeof_ptr in
           if maxSize = 0 \<or> linesSize + length' + 1 \<le> maxSize then
             (case malloc E linesSize (fresh_cells linesSize) s of
                (None, s) \<Rightarrow> readLines_exit e want_lineCount lnCnt (Some (Ptr buf 0)) None s
              | (Some lines, s) \<Rightarrow>
                  readLines_fill e want_lineCount lnCnt buf m length' lines s)
           else
             readLines_exit e want_lineCount lnCnt (Some (Ptr buf 0)) None
               (s\<lparr>errno := EFBIG\<rparr>))))"

text \<open>
  \<^verbatim>\<open>readLines(fileName, maxSize, lineCount)\<close>; \<open>want_lineCount\<close> says that \<^verbatim>\<open>lineCount\<close>
  is not null.
\<close>

definition readLines :: "env \<Rightarrow> string option \<Rightarrow> nat \<Rightarrow> bool \<Rightarrow> cstate
    \<Rightarrow> fault + (rl_result \<times> cstate)" where
  "readLines E fileName maxSize want_lineCount s =
     (let e = errno s in
      bindF (readFile E fileName 1 1 maxSize True (s\<lparr>errno := 0\<rparr>)) (\<lambda>(r, s).
        case rf_buf r of
          None \<Rightarrow> readLines_exit e want_lineCount 0 None None s
        | Some (Ptr buf off) \<Rightarrow>
            (case rf_length r of
               None \<Rightarrow> Inl Uninitialised
             | Some length' \<Rightarrow> readLines_split E e want_lineCount maxSize buf length' s)))"

text \<open>\<^verbatim>\<open>freeLines(lines)\<close>, lines 251-257.\<close>

definition freeLines :: "ptr option \<Rightarrow> cstate \<Rightarrow> fault + cstate" where
  "freeLines lines s =
     bindF (case lines of
              None \<Rightarrow> Inr s
            | Some (Ptr b i) \<Rightarrow>
                bindF (block_cells (heap s) b) (\<lambda>tab.
                  bindF (load tab i) (\<lambda>c.
                    case c of
                      Indet \<Rightarrow> Inl Uninitialised
                    | Val p \<Rightarrow> free p s)))
       (\<lambda>s. free lines s)"

subsection \<open>Environments\<close>

text \<open>
  POSIX requires a failing \<^verbatim>\<open>fopen\<close>, \<^verbatim>\<open>fseek\<close>, \<^verbatim>\<open>malloc\<close>, \<^verbatim>\<open>fread\<close> or \<^verbatim>\<open>realloc\<close>
  to store a non-zero error number in \<^verbatim>\<open>errno\<close>.
\<close>

definition posix :: "env \<Rightarrow> bool" where
  "posix E \<longleftrightarrow>
     (\<forall>ec. fopen_r E = Inl ec \<longrightarrow> ec \<noteq> 0) \<and>
     (\<forall>ec. fseek_r E = Some ec \<longrightarrow> ec \<noteq> 0) \<and>
     (\<forall>k n ec. malloc_r E k n = Some ec \<longrightarrow> ec \<noteq> 0) \<and>
     (\<forall>k ec. fread_r E = Some (k, ec) \<longrightarrow> ec \<noteq> 0) \<and>
     (\<forall>ec. realloc_r E = Some ec \<longrightarrow> ec \<noteq> 0)"

text \<open>An environment in which every call succeeds, on a file holding \<open>bytes\<close>.\<close>

definition plain_env :: "char list \<Rightarrow> env" where
  "plain_env bytes =
     \<lparr>fopen_r = Inr bytes, fseek_r = None, malloc_r = (\<lambda>k n. None), fread_r = None,
      realloc_r = None, junk = (\<lambda>i. CHR ''?'')\<rparr>"

definition start :: cstate where
  "start = \<lparr>errno = 0, heap = []\<rparr>"

text \<open>An environment in which \<^verbatim>\<open>fread\<close> meets a read error after two bytes.\<close>

definition read_error_env :: env where
  "read_error_env = (plain_env ''abc'')\<lparr>fread_r := Some (2, 5)\<rparr>"

text \<open>
  The terminator allowance \<^verbatim>\<open>t\<close> of line 105, after text mode has forced \<^verbatim>\<open>terminate\<close>.
\<close>

definition allowance :: "int \<Rightarrow> int \<Rightarrow> nat" where
  "allowance textMode terminate = (if textMode \<noteq> 0 \<or> terminate \<noteq> 0 then 1 else 0)"

text \<open>
  The error paths of \<^verbatim>\<open>readFile\<close>, in the order the code meets them: a null file name,
  \<^verbatim>\<open>fopen\<close> fails, \<^verbatim>\<open>fseek\<close> fails, the size limit is exceeded, \<^verbatim>\<open>malloc\<close> fails,
  \<^verbatim>\<open>fread\<close> meets a read error (it reads nothing from an empty file).
\<close>

definition error_path :: "env \<Rightarrow> string option \<Rightarrow> int \<Rightarrow> int \<Rightarrow> nat \<Rightarrow> cstate \<Rightarrow> bool" where
  "error_path E fileName textMode terminate maxSize s \<longleftrightarrow>
     (case fileName of
        None \<Rightarrow> True
      | Some name \<Rightarrow>
          (case fopen_r E of
             Inl ec \<Rightarrow> True
           | Inr bytes \<Rightarrow>
               fseek_r E \<noteq> None \<or>
               (maxSize \<noteq> 0 \<and> maxSize < length bytes + allowance textMode terminate) \<or>
               malloc_r E (length (heap s)) (length bytes + allowance textMode terminate) \<noteq> None \<or>
               (bytes \<noteq> [] \<and> fread_r E \<noteq> None)))"

text \<open>An environment in which the shrinking \<^verbatim>\<open>realloc\<close> fails with \<^verbatim>\<open>ENOMEM\<close> (12).\<close>

definition realloc_fails_env :: env where
  "realloc_fails_env = (plain_env (''a'' @ [CR, LF] @ ''b''))\<lparr>realloc_r := Some 12\<rparr>"

text \<open>
  The line count as claim C2 words it: the number of line feeds in the content, plus one
  when the content is not empty and does not end in a line feed.
\<close>

definition claimed_lineCount :: "char list \<Rightarrow> nat" where
  "claimed_lineCount content =
     length (filter (\<lambda>c. c = LF) content) + (if content \<noteq> [] \<and> last content \<noteq> LF then 1 else 0)"

text \<open>
  What the line table should hold for the content \<open>c\<close>: the offsets at which the lines
  start (offset 0, and the offset after every line feed that is not the last byte), and
  the content after the line feeds have become terminators.
\<close>

definition starts_from :: "char list \<Rightarrow> nat \<Rightarrow> nat list" where
  "starts_from c p = map Suc (filter (\<lambda>i. c ! i = LF \<and> Suc i < length c) [p..<length c])"

definition line_starts :: "char list \<Rightarrow> nat list" where
  "line_starts c = (if c = [] then [] else 0 # starts_from c 0)"

definition lf_to_nul :: "char \<Rightarrow> char" where
  "lf_to_nul x = (if x = LF then NUL else x)"

declare compact.simps [simp del] count_lines.simps [simp del] split_lines.simps [simp del]

section \<open>Basic facts\<close>

subsection \<open>Characters and Strchr\<close>

lemma to_char_val: "to_char (char_val ch) = ch"
  apply (simp add: to_char_def char_val_def)
  by (metis char_of_char char_of_quasi_inj minus_mod_self2)

lemma char_val_inj: "char_val a = char_val b \<longleftrightarrow> a = b"
proof
  assume "char_val a = char_val b"
  then have "to_char (char_val a) = to_char (char_val b)" by simp
  then show "a = b" by (simp only: to_char_val)
qed simp

lemma chars_distinct: "CR \<noteq> NUL" "LF \<noteq> NUL" "CR \<noteq> LF" "NUL \<noteq> CR" "NUL \<noteq> LF" "LF \<noteq> CR"
  by (simp_all add: CR_def NUL_def LF_def)

lemma Strchr_loop_scan: "Strchr_loop s (char_val ch) i = strchr_scan s ch i"
  by (induction s "char_val ch" i rule: Strchr_loop.induct)
     (auto simp: to_char_val char_val_inj split: list.splits)

lemma Strchr_strchr: "Strchr m s (char_val ch) = strchr m s (char_val ch)"
  by (simp add: Strchr_def strchr_def Strchr_loop_scan to_char_val)

lemma strchr_scan_found:
  "NUL \<notin> set pre \<Longrightarrow> ch \<notin> set pre \<Longrightarrow> strchr_scan (pre @ ch # rest) ch i = Inr (Some (i + length pre))"
  by (induction pre arbitrary: i) auto

lemma strchr_scan_absent:
  "NUL \<notin> set pre \<Longrightarrow> ch \<notin> set pre \<Longrightarrow> ch \<noteq> NUL \<Longrightarrow> strchr_scan (pre @ NUL # rest) ch i = Inr None"
  by (induction pre arbitrary: i) auto

lemma strchr_scan_Some:
  "strchr_scan s ch i = Inr (Some r) \<Longrightarrow>
     i \<le> r \<and> r < i + length s \<and> s ! (r - i) = ch \<and> ch \<notin> set (take (r - i) s) \<and> NUL \<notin> set (take (r - i) s)"
proof (induction s arbitrary: i)
  case Nil
  then show ?case by simp
next
  case (Cons a s)
  show ?case
  proof (cases "a = ch")
    case True
    with Cons.prems show ?thesis by simp
  next
    case False
    with Cons.prems have an: "a \<noteq> NUL" and rec: "strchr_scan s ch (Suc i) = Inr (Some r)"
      by (auto split: if_splits)
    from Cons.IH [OF rec] have ih: "Suc i \<le> r" "r < Suc i + length s" "s ! (r - Suc i) = ch"
      "ch \<notin> set (take (r - Suc i) s)" "NUL \<notin> set (take (r - Suc i) s)"
      by auto
    from ih(1) have eq: "r - i = Suc (r - Suc i)" by simp
    show ?thesis using ih False an by (auto simp: eq)
  qed
qed

lemma strchr_scan_None:
  "strchr_scan s ch i = Inr None \<Longrightarrow>
     \<exists>j < length s. s ! j = NUL \<and> ch \<notin> set (take (Suc j) s) \<and> NUL \<notin> set (take j s)"
proof (induction s arbitrary: i)
  case Nil
  then show ?case by simp
next
  case (Cons a s)
  show ?case
  proof (cases "a = NUL")
    case True
    with Cons.prems have "a \<noteq> ch" by (auto split: if_splits)
    with True show ?thesis by (intro exI [of _ 0]) auto
  next
    case False
    with Cons.prems have ac: "a \<noteq> ch" and rec: "strchr_scan s ch (Suc i) = Inr None"
      by (auto split: if_splits)
    from Cons.IH [OF rec] obtain j where "j < length s" "s ! j = NUL"
      "ch \<notin> set (take (Suc j) s)" "NUL \<notin> set (take j s)" by blast
    with ac False show ?thesis by (intro exI [of _ "Suc j"]) auto
  qed
qed

subsection \<open>The compaction loop\<close>

lemma take_drop_step:
  "s < e \<Longrightarrow> s < length m \<Longrightarrow> take (e - s) (drop s m) = m ! s # take (e - Suc s) (drop (Suc s) m)"
proof -
  assume a: "s < e" "s < length m"
  then obtain k where k: "e - s = Suc k" by (cases "e - s") auto
  then have k': "e - Suc s = k" by simp
  from a(2) have "drop s m = m ! s # drop (Suc s) m" by (simp add: Cons_nth_drop_Suc)
  then show ?thesis by (simp add: k k')
qed

lemma compact_unfold_done: "\<not> s < e \<Longrightarrow> compact m s d e = Inr (m, d)"
  by (subst compact.simps) simp

lemma compact_unfold_oob: "s < e \<Longrightarrow> \<not> s < length m \<Longrightarrow> compact m s d e = Inl OutOfBounds"
  by (subst compact.simps) simp

lemma compact_unfold_skip:
  "s < e \<Longrightarrow> s < length m \<Longrightarrow> m ! s = CR \<Longrightarrow> compact m s d e = compact m (Suc s) d e"
  by (subst compact.simps) simp

lemma compact_unfold_copy:
  "s < e \<Longrightarrow> s < length m \<Longrightarrow> m ! s \<noteq> CR \<Longrightarrow> d < length m \<Longrightarrow>
     compact m s d e = compact (m[d := m ! s]) (Suc s) (Suc d) e"
  by (subst compact.simps) simp

lemma compact_unfold_copy_oob:
  "s < e \<Longrightarrow> s < length m \<Longrightarrow> m ! s \<noteq> CR \<Longrightarrow> \<not> d < length m \<Longrightarrow>
     compact m s d e = Inl OutOfBounds"
  by (subst compact.simps) simp

lemma compact_result:
  "compact m s d e = Inr (m', d') \<Longrightarrow> d \<le> s \<Longrightarrow>
     length m' = length m \<and> d \<le> d' \<and> d' \<le> d + (e - s) \<and>
     take d' m' = take d m @ filter (\<lambda>c. c \<noteq> CR) (take (e - s) (drop s m))"
proof (induction m s d e arbitrary: m' d' rule: compact.induct)
  case (1 m s d e)
  show ?case
  proof (cases "s < e")
    case False
    with "1.prems" show ?thesis by (simp add: compact_unfold_done)
  next
    case se: True
    show ?thesis
    proof (cases "s < length m")
      case False
      with se "1.prems" show ?thesis by (simp add: compact_unfold_oob)
    next
      case sm: True
      note hd = take_drop_step [OF se sm]
      show ?thesis
      proof (cases "m ! s = CR")
        case True
        with se sm "1.prems" have rec: "compact m (Suc s) d e = Inr (m', d')"
          by (simp add: compact_unfold_skip)
        have "d \<le> Suc s" using "1.prems"(2) by simp
        from "1.IH"(2) [OF se sm _ rec this] True
        have "length m' = length m \<and> d \<le> d' \<and> d' \<le> d + (e - Suc s) \<and>
          take d' m' = take d m @ filter (\<lambda>c. c \<noteq> CR) (take (e - Suc s) (drop (Suc s) m))"
          by simp
        with True hd show ?thesis by auto
      next
        case False
        show ?thesis
        proof (cases "d < length m")
          case dm: True
          with se sm False "1.prems" have rec: "compact (m[d := m ! s]) (Suc s) (Suc d) e = Inr (m', d')"
            by (simp add: compact_unfold_copy)
          have "Suc d \<le> Suc s" using "1.prems"(2) by simp
          from "1.IH"(1) [OF se sm False dm rec this]
          have ih: "length m' = length m" "Suc d \<le> d'" "d' \<le> Suc d + (e - Suc s)"
            "take d' m' = take (Suc d) (m[d := m ! s])
               @ filter (\<lambda>c. c \<noteq> CR) (take (e - Suc s) (drop (Suc s) (m[d := m ! s])))"
            by simp_all
          have a: "take (Suc d) (m[d := m ! s]) = take d m @ [m ! s]"
            using dm by (simp add: take_Suc_conv_app_nth)
          have b: "drop (Suc s) (m[d := m ! s]) = drop (Suc s) m"
            using "1.prems"(2) by simp
          from ih(4) have "take d' m' = take d m @ [m ! s]
               @ filter (\<lambda>c. c \<noteq> CR) (take (e - Suc s) (drop (Suc s) m))"
            by (simp only: a b append_assoc)
          with ih(1-3) se False show ?thesis by (simp add: hd)
        next
          case False
          with se sm \<open>m ! s \<noteq> CR\<close> "1.prems" show ?thesis by (simp add: compact_unfold_copy_oob)
        qed
      qed
    qed
  qed
qed

lemma compact_total:
  "d \<le> s \<Longrightarrow> e \<le> length m \<Longrightarrow> \<exists>m' d'. compact m s d e = Inr (m', d')"
proof (induction m s d e rule: compact.induct)
  case (1 m s d e)
  show ?case
  proof (cases "s < e")
    case False
    then show ?thesis by (simp add: compact_unfold_done)
  next
    case se: True
    with "1.prems" have sm: "s < length m" and dm: "d < length m" by auto
    show ?thesis
    proof (cases "m ! s = CR")
      case True
      have "\<exists>m' d'. compact m (Suc s) d e = Inr (m', d')"
        using "1.IH"(2) [OF se sm] True "1.prems" by simp
      with se sm True show ?thesis by (simp add: compact_unfold_skip)
    next
      case False
      have "\<exists>m' d'. compact (m[d := m ! s]) (Suc s) (Suc d) e = Inr (m', d')"
        using "1.IH"(1) [OF se sm False dm] "1.prems" by simp
      with se sm dm False show ?thesis by (simp add: compact_unfold_copy)
    qed
  qed
qed

subsection \<open>The text-mode pass\<close>

lemma bindF_Inr_iff: "bindF x f = Inr y \<longleftrightarrow> (\<exists>v. x = Inr v \<and> f v = Inr y)"
  by (cases x) (simp_all add: bindF_def)

lemma bindF_Inr [simp]: "bindF (Inr v) f = f v"
  by (simp add: bindF_def)

lemma bindF_Inl [simp]: "bindF (Inl e) f = Inl e"
  by (simp add: bindF_def)

lemma store_Inr_iff: "store m i v = Inr m' \<longleftrightarrow> i < length m \<and> m' = m[i := v]"
  by (auto simp: store_def)

lemma Strchr_CR_Some:
  assumes "Strchr m 0 (char_val CR) = Inr (Some s)"
  shows "s < length m \<and> m ! s = CR \<and> NUL \<notin> set (take s m) \<and> CR \<notin> set (take s m)"
  using strchr_scan_Some [of m CR 0 s] assms
  by (simp add: Strchr_def Strchr_loop_scan)

lemma Strchr_before_NUL:
  assumes "Strchr m 0 (char_val CR) = Inr (Some s)" "n < length m" "m ! n = NUL"
  shows "s < n"
proof (rule ccontr)
  assume "\<not> s < n"
  moreover from Strchr_CR_Some [OF assms(1)] have s: "m ! s = CR" "NUL \<notin> set (take s m)" "s < length m"
    by auto
  moreover have "s \<noteq> n" using s(1) assms(3) chars_distinct by auto
  ultimately have "n < s" by simp
  then have "take s m ! n = m ! n" by simp
  moreover have "n < length (take s m)" using \<open>n < s\<close> s(3) by simp
  ultimately have "NUL \<in> set (take s m)" using assms(3) by (metis nth_mem)
  with s(2) show False by simp
qed

lemma readFile_text_result:
  assumes "readFile_text textMode terminate m n = Inr (m', n')"
  shows "length m' = length m"
    and "terminate \<noteq> 0 \<Longrightarrow> n' < length m' \<and> m' ! n' = NUL \<and> n' \<le> n"
    and "textMode = 0 \<Longrightarrow> n' = n \<and> take n m' = take n m"
proof -
  obtain m1 where m1: "(if terminate \<noteq> 0 then store m n NUL else Inr m) = Inr m1"
    and rest: "(if textMode \<noteq> 0 then
         bindF (Strchr m1 0 (char_val CR)) (\<lambda>s.
           case s of
             None \<Rightarrow> Inr (m1, n)
           | Some s \<Rightarrow>
               bindF (compact m1 s s n) (\<lambda>(m, d).
                 if terminate \<noteq> 0 then bindF (store m d NUL) (\<lambda>m. Inr (m, d))
                 else Inr (m, d)))
       else Inr (m1, n)) = Inr (m', n')"
    using assms by (auto simp: readFile_text_def bindF_Inr_iff)
  have len1: "length m1 = length m"
    using m1 by (auto simp: store_Inr_iff split: if_splits)
  have term1: "terminate \<noteq> 0 \<Longrightarrow> n < length m1 \<and> m1 ! n = NUL"
    using m1 by (auto simp: store_Inr_iff split: if_splits)
  have bin1: "take n m1 = take n m"
    using m1 by (auto simp: store_Inr_iff split: if_splits)
  show "textMode = 0 \<Longrightarrow> n' = n \<and> take n m' = take n m"
    using rest bin1 by simp
  show "length m' = length m"
  proof (cases "textMode = 0")
    case True
    with rest len1 show ?thesis by simp
  next
    case False
    with rest obtain r where r: "Strchr m1 0 (char_val CR) = Inr r" 
      and rest2: "(case r of
             None \<Rightarrow> Inr (m1, n)
           | Some s \<Rightarrow>
               bindF (compact m1 s s n) (\<lambda>(m, d).
                 if terminate \<noteq> 0 then bindF (store m d NUL) (\<lambda>m. Inr (m, d))
                 else Inr (m, d))) = Inr (m', n')"
      by (auto simp: bindF_Inr_iff)
    show ?thesis
    proof (cases r)
      case None
      with rest2 len1 show ?thesis by simp
    next
      case (Some s)
      with rest2 obtain m2 d where c: "compact m1 s s n = Inr (m2, d)"
        and fin: "(if terminate \<noteq> 0 then bindF (store m2 d NUL) (\<lambda>m. Inr (m, d))
                 else Inr (m2, d)) = Inr (m', n')"
        by (auto simp: bindF_Inr_iff)
      from compact_result [OF c] have "length m2 = length m1" by simp
      with fin len1 show ?thesis by (auto simp: bindF_Inr_iff store_Inr_iff split: if_splits)
    qed
  qed
  show "n' < length m' \<and> m' ! n' = NUL \<and> n' \<le> n" if t: "terminate \<noteq> 0"
  proof (cases "textMode = 0")
    case True
    with rest term1 [OF t] show ?thesis by auto
  next
    case False
    with rest obtain r where r: "Strchr m1 0 (char_val CR) = Inr r" 
      and rest2: "(case r of
             None \<Rightarrow> Inr (m1, n)
           | Some s \<Rightarrow>
               bindF (compact m1 s s n) (\<lambda>(m, d).
                 if terminate \<noteq> 0 then bindF (store m d NUL) (\<lambda>m. Inr (m, d))
                 else Inr (m, d))) = Inr (m', n')"
      by (auto simp: bindF_Inr_iff)
    show ?thesis
    proof (cases r)
      case None
      with rest2 term1 [OF t] show ?thesis by auto
    next
      case (Some s)
      with rest2 t obtain m2 where c: "compact m1 s s n = Inr (m2, n')"
        and fin: "store m2 n' NUL = Inr m'"
        by (auto simp: bindF_Inr_iff)
      from r Some term1 [OF t] have "s < n" by (auto intro: Strchr_before_NUL)
      with compact_result [OF c] have "n' \<le> n" by simp
      with fin show ?thesis by (auto simp: store_Inr_iff)
    qed
  qed
qed

lemma Strchr_total:
  assumes "n < length m" "m ! n = NUL" "p \<le> n"
  shows "\<exists>r. Strchr m p (char_val ch) = Inr r"
proof -
  have "\<exists>r. strchr_scan s ch i = Inr r" if "NUL \<in> set s" for s i
    using that by (induction s arbitrary: i) auto
  moreover have "NUL \<in> set (drop p m)"
  proof -
    have "drop p m ! (n - p) = m ! n" using assms by simp
    moreover have "n - p < length (drop p m)" using assms by simp
    ultimately show ?thesis using assms(2) by (metis nth_mem)
  qed
  ultimately show ?thesis by (simp add: Strchr_def Strchr_loop_scan)
qed

lemma readFile_text_total:
  assumes "terminate \<noteq> 0 \<or> textMode = 0" "n < length m \<or> (terminate = 0 \<and> n \<le> length m)"
  shows "\<exists>m' n'. readFile_text textMode terminate m n = Inr (m', n')"
proof (cases "textMode = 0")
  case True
  with assms show ?thesis by (auto simp: readFile_text_def store_def)
next
  case False
  with assms have t: "terminate \<noteq> 0" and nl: "n < length m" by auto
  let ?m1 = "m[n := NUL]"
  have m1: "n < length ?m1" "?m1 ! n = NUL" using nl by simp_all
  from Strchr_total [OF m1, of 0 CR] obtain r where r: "Strchr ?m1 0 (char_val CR) = Inr r" by auto
  show ?thesis
  proof (cases r)
    case None
    with r t nl False show ?thesis by (simp add: readFile_text_def store_def)
  next
    case (Some s)
    with r m1 have sn: "s < n" by (auto intro: Strchr_before_NUL)
    from compact_total [of s s n ?m1] nl obtain m2 d where c: "compact ?m1 s s n = Inr (m2, d)"
      by auto
    from compact_result [OF c] sn nl have "d < length m2" by simp
    with r Some c t nl False show ?thesis by (simp add: readFile_text_def store_def)
  qed
qed

lemma filter_id_notin: "x \<notin> set xs \<Longrightarrow> filter (\<lambda>c. c \<noteq> x) xs = xs"
  by (induction xs) auto

lemma readFile_text_clean:
  assumes run: "readFile_text textMode terminate m n = Inr (m', n')"
    and tm: "textMode \<noteq> 0" and t: "terminate \<noteq> 0"
    and fl: "take n m = file" "n = length file" "NUL \<notin> set file"
  shows "take n' m' = filter (\<lambda>c. c \<noteq> CR) file"
proof -
  from run t have nl: "n < length m"
    by (auto simp: readFile_text_def bindF_Inr_iff store_Inr_iff)
  define m1 where "m1 = m[n := NUL]"
  have m1: "m1 = file @ NUL # drop (Suc n) m"
    unfolding m1_def using nl fl(1) by (simp add: upd_conv_take_nth_drop)
  have st: "store m n NUL = Inr m1" using nl by (simp add: store_def m1_def)
  from run t tm obtain r where r: "Strchr m1 0 (char_val CR) = Inr r"
    and rest2: "(case r of
             None \<Rightarrow> Inr (m1, n)
           | Some s \<Rightarrow>
               bindF (compact m1 s s n) (\<lambda>(m, d). bindF (store m d NUL) (\<lambda>m. Inr (m, d)))) = Inr (m', n')"
    by (auto simp: readFile_text_def st bindF_Inr_iff)
  show ?thesis
  proof (cases "CR \<in> set file")
    case False
    then have "strchr_scan m1 CR 0 = Inr None"
      using fl(3) chars_distinct by (simp add: m1 strchr_scan_absent)
    with r have "r = None" by (simp add: Strchr_def Strchr_loop_scan)
    with rest2 have "m' = m1" "n' = n" by auto
    then show ?thesis using False fl m1 by (simp add: filter_id_notin)
  next
    case True
    then obtain pre post where sp: "file = pre @ CR # post" "CR \<notin> set pre"
      by (meson split_list_first)
    then have "strchr_scan m1 CR 0 = Inr (Some (length pre))"
      using fl(3) strchr_scan_found [of pre CR "post @ NUL # drop (Suc n) m" 0] by (simp add: m1)
    with r have rs: "r = Some (length pre)" by (simp add: Strchr_def Strchr_loop_scan)
    with rest2 obtain m2 d where c: "compact m1 (length pre) (length pre) n = Inr (m2, d)"
      and fin: "store m2 d NUL = Inr m'" "n' = d"
      by (auto simp: bindF_Inr_iff)
    from compact_result [OF c]
    have cr: "d \<le> length pre + (n - length pre)" "length m2 = length m1"
         "take d m2 = take (length pre) m1 @ filter (\<lambda>c. c \<noteq> CR) (take (n - length pre) (drop (length pre) m1))"
      by simp_all
    have "take (length pre) m1 = pre" by (simp add: m1 sp)
    moreover have "take (n - length pre) (drop (length pre) m1) = CR # post"
      using fl(2) by (simp add: m1 sp)
    ultimately have "take d m2 = filter (\<lambda>c. c \<noteq> CR) file"
      using cr(3) sp by (simp add: filter_id_notin)
    moreover have "take d m' = take d m2" using fin by (auto simp: store_Inr_iff)
    ultimately show ?thesis using fin(2) by simp
  qed
qed

subsection \<open>The body of readFile\<close>

lemma block_chars_last [simp]: "block_chars (h @ [Some (Chars m)]) (length h) = Inr m"
  by (simp add: block_chars_def)

lemma free_last:
  "heap s = h @ [Some x] \<Longrightarrow> free (Some (Ptr (length h) 0)) s = Inr (s\<lparr>heap := h @ [None]\<rparr>)"
  by (simp add: free_def)

lemma free_None [simp]: "free None s = Inr s"
  by (simp add: free_def)

lemma readFile_shrink_result:
  assumes run: "readFile_shrink E (length h) n t fsize s = Inr (b, s')"
    and hp: "heap s = h @ [Some (Chars m)]" and e0: "errno s = 0" and nt: "n + t \<le> length m"
  shows "errno s' = 0 \<and>
         (heap s' = h @ [Some (Chars m)] \<and> b = length h \<or>
          heap s' = h @ [None, Some (Chars (take (n + t) m))] \<and> b = Suc (length h))"
proof (cases "n < fsize")
  case False
  with run hp e0 show ?thesis by (simp add: readFile_shrink_def)
next
  case True
  show ?thesis
  proof (cases "realloc_r E")
    case None
    with run True hp e0 nt show ?thesis
      by (auto simp: readFile_shrink_def realloc_def)
  next
    case (Some ec)
    with run True hp e0 nt show ?thesis
      by (auto simp: readFile_shrink_def realloc_def)
  qed
qed

lemma readFile_shrink_total:
  assumes hp: "heap s = h @ [Some (Chars m)]"
  shows "\<exists>b s'. readFile_shrink E (length h) n t fsize s = Inr (b, s')"
  using hp by (cases "realloc_r E") (auto simp: readFile_shrink_def realloc_def)

lemma fread_result:
  assumes "fread E m (length file) file s = (m', n, ferr, s')" "length file \<le> length m"
  shows "n \<le> length file \<and> length m' = length m \<and> heap s' = heap s \<and>
         (\<not> ferr \<longrightarrow> n = length file \<and> take n m' = file \<and> errno s' = errno s) \<and>
         (ferr \<longrightarrow> file \<noteq> [] \<and> (\<exists>k. fread_r E = Some (k, errno s')))"
  using assms by (auto simp: fread_def Let_def split: if_splits option.splits prod.splits)

lemma readFile_filled_result:
  assumes run: "readFile_filled E file (length file) textMode terminate t (length h) s = Inr (b, n, s')"
    and hp: "heap s = h @ [Some (Chars m0)]" and len0: "length m0 = length file + t"
    and e0: "errno s = 0"
    and t: "t = (if terminate \<noteq> 0 then 1 else 0)"
    and tt: "textMode \<noteq> 0 \<longrightarrow> terminate \<noteq> 0"
  shows "n \<le> length file \<and> (fread_r E = None \<or> file = [] \<longrightarrow> errno s' = 0) \<and>
     (\<exists>m. (heap s' = h @ [Some (Chars m)] \<and> b = length h \<or>
           heap s' = h @ [None, Some (Chars m)] \<and> b = Suc (length h) \<and> errno s' = 0) \<and>
          (errno s' = 0 \<longrightarrow> posix E \<longrightarrow>
             (terminate \<noteq> 0 \<longrightarrow> n < length m \<and> m ! n = NUL) \<and>
             (textMode = 0 \<longrightarrow> n = length file \<and> take n m = file) \<and>
             (textMode \<noteq> 0 \<longrightarrow> NUL \<notin> set file \<longrightarrow> take n m = filter (\<lambda>c. c \<noteq> CR) file)))"
proof -
  obtain m1 n1 ferr s1 where fr: "fread E m0 (length file) file s = (m1, n1, ferr, s1)"
    by (metis prod_cases4)
  from fread_result [OF fr] len0
  have f1: "n1 \<le> length file" "length m1 = length m0" "heap s1 = heap s"
    and fok: "\<not> ferr \<Longrightarrow> n1 = length file \<and> take n1 m1 = file \<and> errno s1 = errno s"
    and ferr: "ferr \<Longrightarrow> file \<noteq> [] \<and> (\<exists>k. fread_r E = Some (k, errno s1))"
    by auto
  show ?thesis
  proof (cases ferr)
    case True
    with run hp fr have r: "b = length h" "n = n1" "s' = put_block (length h) (Chars m1) s1"
      by (auto simp: readFile_filled_def)
    from ferr [OF True] have "posix E \<Longrightarrow> errno s1 \<noteq> 0"
      by (auto simp: posix_def)
    moreover from ferr [OF True] have "\<not> (fread_r E = None \<or> file = [])"
      by auto
    ultimately show ?thesis using r f1 hp by (auto simp: put_block_def)
  next
    case False
    note ok = fok [OF False]
    from run hp fr False obtain m2 n2 where
      tx: "readFile_text textMode terminate m1 n1 = Inr (m2, n2)"
      and sh: "readFile_shrink E (length h) n2 t (length file) (put_block (length h) (Chars m2) s1)
                 = Inr (b, s')" and nn: "n = n2"
      by (auto simp: readFile_filled_def bindF_Inr_iff)
    note txr = readFile_text_result [OF tx]
    have n2: "n2 \<le> length file"
    proof (cases "terminate = 0")
      case True
      with tt txr(3) ok show ?thesis by simp
    next
      case False
      with txr(2) ok show ?thesis by simp
    qed
    have hp2: "heap (put_block (length h) (Chars m2) s1) = h @ [Some (Chars m2)]"
      using hp f1 by (simp add: put_block_def)
    have e2: "errno (put_block (length h) (Chars m2) s1) = 0"
      using ok e0 by (simp add: put_block_def)
    have nt: "n2 + t \<le> length m2"
      using n2 txr(1) f1(2) len0 by simp
    from readFile_shrink_result [OF sh hp2 e2 nt]
    have es: "errno s' = 0" and hs: "heap s' = h @ [Some (Chars m2)] \<and> b = length h \<or>
          heap s' = h @ [None, Some (Chars (take (n2 + t) m2))] \<and> b = Suc (length h)"
      by auto
    have clean: "take n2 m2 = filter (\<lambda>c. c \<noteq> CR) file" if "textMode \<noteq> 0" "NUL \<notin> set file"
    proof -
      from ok have a: "take n1 m1 = file" "n1 = length file" by blast+
      from tt that(1) have b: "terminate \<noteq> 0" by simp
      show ?thesis by (rule readFile_text_clean [OF tx that(1) b a that(2)])
    qed
    have P2: "(terminate \<noteq> 0 \<longrightarrow> n2 < length m2 \<and> m2 ! n2 = NUL) \<and>
             (textMode = 0 \<longrightarrow> n2 = length file \<and> take n2 m2 = file) \<and>
             (textMode \<noteq> 0 \<longrightarrow> NUL \<notin> set file \<longrightarrow> take n2 m2 = filter (\<lambda>c. c \<noteq> CR) file)"
      using txr ok clean by auto
    from hs show ?thesis
    proof
      assume "heap s' = h @ [Some (Chars m2)] \<and> b = length h"
      with P2 n2 nn es show ?thesis by auto
    next
      assume a: "heap s' = h @ [None, Some (Chars (take (n2 + t) m2))] \<and> b = Suc (length h)"
      have "(terminate \<noteq> 0 \<longrightarrow> n2 < length (take (n2 + t) m2) \<and> take (n2 + t) m2 ! n2 = NUL) \<and>
             (textMode = 0 \<longrightarrow> n2 = length file \<and> take n2 (take (n2 + t) m2) = file) \<and>
             (textMode \<noteq> 0 \<longrightarrow> NUL \<notin> set file \<longrightarrow>
                take n2 (take (n2 + t) m2) = filter (\<lambda>c. c \<noteq> CR) file)"
        using P2 t nt by (auto simp: min_def)
      with a n2 nn es show ?thesis by blast
    qed
  qed
qed

lemma readFile_filled_total:
  assumes hp: "heap s = h @ [Some (Chars m0)]" and len0: "length m0 = length file + t"
    and t: "t = (if terminate \<noteq> 0 then 1 else 0)"
    and tt: "textMode \<noteq> 0 \<longrightarrow> terminate \<noteq> 0"
  shows "\<exists>b n s'. readFile_filled E file (length file) textMode terminate t (length h) s = Inr (b, n, s')"
proof -
  obtain m1 n1 ferr s1 where fr: "fread E m0 (length file) file s = (m1, n1, ferr, s1)"
    by (metis prod_cases4)
  from fread_result [OF fr] len0
  have f1: "n1 \<le> length file" "length m1 = length m0" "heap s1 = heap s"
    by auto
  show ?thesis
  proof (cases ferr)
    case True
    with hp fr show ?thesis by (simp add: readFile_filled_def)
  next
    case False
    have "\<exists>m2 n2. readFile_text textMode terminate m1 n1 = Inr (m2, n2)"
      using tt f1 len0 t by (intro readFile_text_total) auto
    then obtain m2 n2 where tx: "readFile_text textMode terminate m1 n1 = Inr (m2, n2)" by blast
    have hp2: "heap (put_block (length h) (Chars m2) s1) = h @ [Some (Chars m2)]"
      using hp f1 by (simp add: put_block_def)
    from readFile_shrink_total [OF hp2, of E n2 t "length file"] obtain b s' where
      "readFile_shrink E (length h) n2 t (length file) (put_block (length h) (Chars m2) s1) = Inr (b, s')"
      by blast
    with hp fr False tx show ?thesis by (simp add: readFile_filled_def)
  qed
qed

lemma readFile_exit_NULL:
  "readFile_exit e want n None s = Inr (r, s') \<longleftrightarrow>
     r = \<lparr>rf_buf = None, rf_length = (if want then Some (if errno s \<noteq> 0 then 0 else n) else None)\<rparr> \<and>
     s' = (if errno s \<noteq> 0 then s else s\<lparr>errno := e\<rparr>)"
  by (auto simp: readFile_exit_def)

lemma readFile_paths:
  assumes run: "readFile E fileName textMode terminate maxSize want s = Inr (r, s')"
  shows "(\<exists>x. readFile_exit (errno s) want 0 None (s\<lparr>errno := x\<rparr>) = Inr (r, s')) \<or>
     (\<exists>file b n s1 name. fopen_r E = Inr file \<and> fileName = Some name \<and> fseek_r E = None \<and>
        (maxSize = 0 \<or> length file + (if textMode \<noteq> 0 \<or> terminate \<noteq> 0 then 1 else 0) \<le> maxSize) \<and>
        malloc_r E (length (heap s)) (length file + (if textMode \<noteq> 0 \<or> terminate \<noteq> 0 then 1 else 0)) = None \<and>
        readFile_filled E file (length file) textMode (if textMode \<noteq> 0 then TRUE else terminate)
          (if textMode \<noteq> 0 \<or> terminate \<noteq> 0 then 1 else 0) (length (heap s))
          (s\<lparr>errno := 0, heap := heap s @ [Some (fresh_chars E
              (length file + (if textMode \<noteq> 0 \<or> terminate \<noteq> 0 then 1 else 0)))]\<rparr>) = Inr (b, n, s1) \<and>
        readFile_exit (errno s) want n (Some (Ptr b 0)) s1 = Inr (r, s'))"
proof (cases fileName)
  case None
  with run show ?thesis by (auto simp: readFile_def)
next
  case (Some name)
  show ?thesis
  proof (cases "fopen_r E")
    case (Inl ec)
    with run Some show ?thesis by (auto simp: readFile_def fopen_def)
  next
    case (Inr bytes)
    show ?thesis
    proof (cases "fseek_r E")
      case (Some ec)
      with run \<open>fileName = Some name\<close> Inr show ?thesis
        by (auto simp: readFile_def fopen_def fseek_end_def)
    next
      case None
      define t :: nat where "t = (if textMode \<noteq> 0 \<or> terminate \<noteq> 0 then 1 else 0)"
      have t_alt: "(if (if textMode \<noteq> 0 then TRUE else terminate) \<noteq> 0 then 1 else 0) = t"
        by (simp add: t_def TRUE_def)
      show ?thesis
      proof (cases "maxSize = 0 \<or> length bytes + t \<le> maxSize")
        case False
        with run \<open>fileName = Some name\<close> Inr None show ?thesis
          by (auto simp: readFile_def fopen_def fseek_end_def ftell_def Let_def t_alt)
      next
        case fits: True
        show ?thesis
        proof (cases "malloc_r E (length (heap s)) (length bytes + t)")
          case (Some ec)
          with run \<open>fileName = Some name\<close> Inr None fits show ?thesis
            by (auto simp: readFile_def fopen_def fseek_end_def ftell_def Let_def t_alt malloc_def)
        next
          case mok: None
          from run \<open>fileName = Some name\<close> Inr None fits mok
          have "bindF (readFile_filled E bytes (length bytes) textMode
                  (if textMode \<noteq> 0 then TRUE else terminate) t (length (heap s))
                  (s\<lparr>errno := 0, heap := heap s @ [Some (fresh_chars E (length bytes + t))]\<rparr>))
                (\<lambda>(buf, n, s1). readFile_exit (errno s) want n (Some (Ptr buf 0)) s1) = Inr (r, s')"
            by (simp add: readFile_def fopen_def fseek_end_def ftell_def Let_def t_alt malloc_def)
          then obtain b n s1 where
            "readFile_filled E bytes (length bytes) textMode
                  (if textMode \<noteq> 0 then TRUE else terminate) t (length (heap s))
                  (s\<lparr>errno := 0, heap := heap s @ [Some (fresh_chars E (length bytes + t))]\<rparr>)
               = Inr (b, n, s1)"
            "readFile_exit (errno s) want n (Some (Ptr b 0)) s1 = Inr (r, s')"
            by (auto simp: bindF_Inr_iff)
          with Inr None fits mok \<open>fileName = Some name\<close> show ?thesis
            unfolding t_def by blast
        qed
      qed
    qed
  qed
qed

lemma fresh_chars_length: "fresh_chars E k = Chars m \<Longrightarrow> length m = k"
  by (auto simp: fresh_chars_def)

lemma readFile_success:
  assumes run: "readFile E fileName textMode terminate maxSize want s = Inr (r, s')"
    and buf: "rf_buf r = Some p"
  shows "\<exists>fb b m n. fopen_r E = Inr fb \<and> p = Ptr b 0 \<and>
     rf_length r = (if want then Some n else None) \<and> errno s' = errno s \<and>
     (heap s' = heap s @ [Some (Chars m)] \<and> b = length (heap s) \<or>
      heap s' = heap s @ [None, Some (Chars m)] \<and> b = Suc (length (heap s))) \<and>
     n \<le> length fb \<and>
     (posix E \<longrightarrow>
        (textMode \<noteq> 0 \<or> terminate \<noteq> 0 \<longrightarrow> n < length m \<and> m ! n = NUL) \<and>
        (textMode = 0 \<longrightarrow> n = length fb \<and> take n m = fb) \<and>
        (textMode \<noteq> 0 \<longrightarrow> NUL \<notin> set fb \<longrightarrow> take n m = filter (\<lambda>c. c \<noteq> CR) fb))"
proof -
  define t :: nat where "t = (if textMode \<noteq> 0 \<or> terminate \<noteq> 0 then 1 else 0)"
  define term' where "term' = (if textMode \<noteq> 0 then TRUE else terminate)"
  from readFile_paths [OF run] buf obtain fb b n s1 where
    fo: "fopen_r E = Inr fb"
    and fi: "readFile_filled E fb (length fb) textMode term' t (length (heap s))
          (s\<lparr>errno := 0, heap := heap s @ [Some (fresh_chars E (length fb + t))]\<rparr>) = Inr (b, n, s1)"
    and ex: "readFile_exit (errno s) want n (Some (Ptr b 0)) s1 = Inr (r, s')"
    unfolding t_def term'_def by (auto simp: readFile_exit_NULL)
  obtain m0 where m0: "fresh_chars E (length fb + t) = Chars m0" by (simp add: fresh_chars_def)
  have tt: "t = (if term' \<noteq> 0 then 1 else 0)" "textMode \<noteq> 0 \<longrightarrow> term' \<noteq> 0"
    "term' \<noteq> 0 \<longleftrightarrow> textMode \<noteq> 0 \<or> terminate \<noteq> 0"
    by (auto simp: t_def term'_def TRUE_def)
  have "n \<le> length fb \<and> (fread_r E = None \<or> fb = [] \<longrightarrow> errno s1 = 0) \<and>
     (\<exists>m. (heap s1 = heap s @ [Some (Chars m)] \<and> b = length (heap s) \<or>
           heap s1 = heap s @ [None, Some (Chars m)] \<and> b = Suc (length (heap s)) \<and> errno s1 = 0) \<and>
          (errno s1 = 0 \<longrightarrow> posix E \<longrightarrow>
             (term' \<noteq> 0 \<longrightarrow> n < length m \<and> m ! n = NUL) \<and>
             (textMode = 0 \<longrightarrow> n = length fb \<and> take n m = fb) \<and>
             (textMode \<noteq> 0 \<longrightarrow> NUL \<notin> set fb \<longrightarrow> take n m = filter (\<lambda>c. c \<noteq> CR) fb)))"
    by (rule readFile_filled_result [OF fi _ fresh_chars_length [OF m0] _ tt(1,2)]) (simp_all add: m0)
  then obtain m where nl: "n \<le> length fb"
    and hp: "heap s1 = heap s @ [Some (Chars m)] \<and> b = length (heap s) \<or>
           heap s1 = heap s @ [None, Some (Chars m)] \<and> b = Suc (length (heap s))"
    and pr: "errno s1 = 0 \<Longrightarrow> posix E \<Longrightarrow>
             (term' \<noteq> 0 \<longrightarrow> n < length m \<and> m ! n = NUL) \<and>
             (textMode = 0 \<longrightarrow> n = length fb \<and> take n m = fb) \<and>
             (textMode \<noteq> 0 \<longrightarrow> NUL \<notin> set fb \<longrightarrow> take n m = filter (\<lambda>c. c \<noteq> CR) fb)"
    by blast
  from ex buf have e1: "errno s1 = 0" and r: "rf_buf r = Some (Ptr b 0)"
    "rf_length r = (if want then Some n else None)" and s': "s' = s1\<lparr>errno := errno s\<rparr>"
    by (auto simp: readFile_exit_def bindF_Inr_iff split: if_splits)
  from r buf have "p = Ptr b 0" by simp
  moreover from s' hp have "heap s' = heap s @ [Some (Chars m)] \<and> b = length (heap s) \<or>
      heap s' = heap s @ [None, Some (Chars m)] \<and> b = Suc (length (heap s))" by simp
  moreover from s' have "errno s' = errno s" by simp
  ultimately show ?thesis using fo r(2) nl pr [OF e1] tt(3) by blast
qed

lemma readFile_failure:
  assumes run: "readFile E fileName textMode terminate maxSize want s = Inr (r, s')"
    and buf: "rf_buf r = None"
  shows "rf_length r = (if want then Some 0 else None) \<and>
         (heap s' = heap s \<or> heap s' = heap s @ [None])"
proof -
  define t :: nat where "t = (if textMode \<noteq> 0 \<or> terminate \<noteq> 0 then 1 else 0)"
  define term' where "term' = (if textMode \<noteq> 0 then TRUE else terminate)"
  from readFile_paths [OF run]
  consider (early) x where "readFile_exit (errno s) want 0 None (s\<lparr>errno := x\<rparr>) = Inr (r, s')"
    | (late) fb b n s1 where "fopen_r E = Inr fb"
       "readFile_filled E fb (length fb) textMode term' t (length (heap s))
          (s\<lparr>errno := 0, heap := heap s @ [Some (fresh_chars E (length fb + t))]\<rparr>) = Inr (b, n, s1)"
       "readFile_exit (errno s) want n (Some (Ptr b 0)) s1 = Inr (r, s')"
    unfolding t_def term'_def by blast
  then show ?thesis
  proof cases
    case early
    then show ?thesis by (auto simp: readFile_exit_NULL)
  next
    case late
    obtain m0 where m0: "fresh_chars E (length fb + t) = Chars m0" by (simp add: fresh_chars_def)
    have tt: "t = (if term' \<noteq> 0 then 1 else 0)" "textMode \<noteq> 0 \<longrightarrow> term' \<noteq> 0"
      by (auto simp: t_def term'_def TRUE_def)
    have "n \<le> length fb \<and> (fread_r E = None \<or> fb = [] \<longrightarrow> errno s1 = 0) \<and>
     (\<exists>m. (heap s1 = heap s @ [Some (Chars m)] \<and> b = length (heap s) \<or>
           heap s1 = heap s @ [None, Some (Chars m)] \<and> b = Suc (length (heap s)) \<and> errno s1 = 0) \<and>
          (errno s1 = 0 \<longrightarrow> posix E \<longrightarrow>
             (term' \<noteq> 0 \<longrightarrow> n < length m \<and> m ! n = NUL) \<and>
             (textMode = 0 \<longrightarrow> n = length fb \<and> take n m = fb) \<and>
             (textMode \<noteq> 0 \<longrightarrow> NUL \<notin> set fb \<longrightarrow> take n m = filter (\<lambda>c. c \<noteq> CR) fb)))"
      by (rule readFile_filled_result [OF late(2) _ fresh_chars_length [OF m0] _ tt(1,2)]) (simp_all add: m0)
    then obtain m where hp: "heap s1 = heap s @ [Some (Chars m)] \<and> b = length (heap s) \<or>
           heap s1 = heap s @ [None, Some (Chars m)] \<and> b = Suc (length (heap s)) \<and> errno s1 = 0"
      by blast
    from late(3) buf obtain s2 where fr: "free (Some (Ptr b 0)) s1 = Inr s2"
      and r: "rf_length r = (if want then Some 0 else None)" and s': "s' = s2"
      by (auto simp: readFile_exit_def bindF_Inr_iff split: if_splits)
    from hp show ?thesis
    proof
      assume a: "heap s1 = heap s @ [Some (Chars m)] \<and> b = length (heap s)"
      then have "free (Some (Ptr b 0)) s1 = Inr (s1\<lparr>heap := heap s @ [None]\<rparr>)"
        by (simp add: free_last)
      with fr s' r show ?thesis by auto
    next
      assume a: "heap s1 = heap s @ [None, Some (Chars m)] \<and> b = Suc (length (heap s)) \<and> errno s1 = 0"
      from late(3) buf have "errno s1 \<noteq> 0"
        by (auto simp: readFile_exit_def split: if_splits)
      with a show ?thesis by simp
    qed
  qed
qed

lemma allowance_alt:
  "(if (if textMode \<noteq> 0 then TRUE else terminate) \<noteq> 0 then 1 else 0) = allowance textMode terminate"
  by (simp add: allowance_def TRUE_def)

text \<open>\<^verbatim>\<open>readFile\<close> always returns: no read or write leaves its buffer, nothing is freed twice.\<close>

lemma readFile_exit_total:
  assumes "buf = None \<or> (\<exists>b. buf = Some (Ptr b 0) \<and> b < length (heap s) \<and> heap s ! b \<noteq> None)"
  shows "\<exists>r s'. readFile_exit e want n buf s = Inr (r, s')"
  using assms by (auto simp: readFile_exit_def free_def)

lemma readFile_total:
  "\<exists>r s'. readFile E fileName textMode terminate maxSize want s = Inr (r, s')"
proof (cases fileName)
  case None
  then show ?thesis by (simp add: readFile_def readFile_exit_total)
next
  case (Some name)
  show ?thesis
  proof (cases "fopen_r E")
    case (Inl ec)
    with Some show ?thesis by (simp add: readFile_def fopen_def readFile_exit_total)
  next
    case (Inr bytes)
    show ?thesis
    proof (cases "fseek_r E")
      case (Some ec)
      with \<open>fileName = Some name\<close> Inr show ?thesis
        by (simp add: readFile_def fopen_def fseek_end_def readFile_exit_total)
    next
      case None
      let ?t = "allowance textMode terminate"
      let ?tforced = "if textMode \<noteq> 0 then TRUE else terminate"
      show ?thesis
      proof (cases "maxSize = 0 \<or> length bytes + ?t \<le> maxSize")
        case False
        with \<open>fileName = Some name\<close> Inr None show ?thesis
          by (simp add: readFile_def fopen_def fseek_end_def ftell_def Let_def allowance_alt
              readFile_exit_total)
      next
        case fits: True
        show ?thesis
        proof (cases "malloc_r E (length (heap s)) (length bytes + ?t)")
          case (Some ec)
          with \<open>fileName = Some name\<close> Inr None fits show ?thesis
            by (simp add: readFile_def fopen_def fseek_end_def ftell_def Let_def allowance_alt
                malloc_def readFile_exit_total)
        next
          case mok: None
          let ?s1 = "s\<lparr>errno := 0, heap := heap s @ [Some (fresh_chars E (length bytes + ?t))]\<rparr>"
          have hp: "heap ?s1 = heap s @ [Some (Chars (map (junk E) [0..<length bytes + ?t]))]"
            by (simp add: fresh_chars_def)
          have tt: "?t = (if ?tforced \<noteq> 0 then 1 else 0)" "textMode \<noteq> 0 \<longrightarrow> ?tforced \<noteq> 0"
            by (simp_all add: allowance_def TRUE_def)
          have len: "length (map (junk E) [0..<length bytes + ?t]) = length bytes + ?t"
            by simp
          from readFile_filled_total [OF hp len tt, of E]
          obtain b n s2 where fi: "readFile_filled E bytes (length bytes) textMode ?tforced ?t
              (length (heap s)) ?s1 = Inr (b, n, s2)"
            by blast
          have e1: "errno ?s1 = 0" by simp
          from readFile_filled_result [OF fi hp len e1 tt]
          have "b < length (heap s2) \<and> heap s2 ! b \<noteq> None"
            by (auto simp: nth_append)
          then have "\<exists>r s'. readFile_exit (errno s) want n (Some (Ptr b 0)) s2 = Inr (r, s')"
            by (intro readFile_exit_total) simp
          with \<open>fileName = Some name\<close> Inr None fits mok fi show ?thesis
            by (simp add: readFile_def fopen_def fseek_end_def ftell_def Let_def allowance_alt
                malloc_def)
        qed
      qed
    qed
  qed
qed

subsection \<open>The loops of readLines\<close>

lemma Strchr_Some_bounds:
  "Strchr m p (char_val ch) = Inr (Some q) \<Longrightarrow> p \<le> q \<and> q < length m \<and> m ! q = ch"
proof -
  assume a: "Strchr m p (char_val ch) = Inr (Some q)"
  then have "strchr_scan (drop p m) ch p = Inr (Some q)"
    by (simp add: Strchr_def Strchr_loop_scan)
  from strchr_scan_Some [OF this] have b: "p \<le> q" "q < p + length (drop p m)" "drop p m ! (q - p) = ch"
    by auto
  then have "q < length m" by (cases "p \<le> length m") auto
  with b show ?thesis by simp
qed

lemma split_lines_frame:
  "split_lines buf m tab p ln = Inr (m', tab', ln') \<Longrightarrow>
     ln \<le> ln' \<and> length tab' = length tab \<and> length m' = length m \<and> (\<forall>i<ln. tab' ! i = tab ! i)"
proof (induction buf m tab p ln arbitrary: m' tab' ln' rule: split_lines.induct)
  case (1 buf m tab p ln)
  show ?case
  proof (cases "Strchr m p (char_val LF)")
    case (Inl f)
    with "1.prems" show ?thesis by (simp add: split_lines.simps [of buf m tab p ln])
  next
    case (Inr x)
    show ?thesis
    proof (cases x)
      case None
      with Inr "1.prems" show ?thesis by (simp add: split_lines.simps [of buf m tab p ln])
    next
      case (Some q)
      show ?thesis
      proof (cases "Suc q < length m")
        case False
        with Inr Some "1.prems" show ?thesis by (simp add: split_lines.simps [of buf m tab p ln])
      next
        case sq: True
        show ?thesis
        proof (cases "m[q := NUL] ! Suc q \<noteq> NUL")
          case nz: True
          show ?thesis
          proof (cases "ln < length tab")
            case False
            with Inr Some sq nz "1.prems" show ?thesis
              by (simp add: split_lines.simps [of buf m tab p ln])
          next
            case lt: True
            with Inr Some sq nz "1.prems"
            have rec: "split_lines buf (m[q := NUL]) (tab[ln := Val (Some (Ptr buf (Suc q)))])
                        (Suc q) (Suc ln) = Inr (m', tab', ln')"
              by (simp add: split_lines.simps [of buf m tab p ln])
            from "1.IH"(1) [OF Inr Some sq nz lt rec] show ?thesis by auto
          qed
        next
          case z: False
          with Inr Some sq "1.prems"
          have rec: "split_lines buf (m[q := NUL]) tab (Suc q) ln = Inr (m', tab', ln')"
            by (simp add: split_lines.simps [of buf m tab p ln])
          from "1.IH"(2) [OF Inr Some sq z rec] show ?thesis by auto
        qed
      qed
    qed
  qed
qed

lemma count_lines_clean:
  assumes "NUL \<notin> set c"
  shows "p \<le> length c \<Longrightarrow>
     count_lines (c @ NUL # rest) p k = Inr (k + length (filter (\<lambda>x. x = LF) (drop p c)))"
proof (induction "length c - p" arbitrary: p k rule: less_induct)
  case less
  let ?m = "c @ NUL # rest"
  have dr: "drop p ?m = drop p c @ NUL # rest" using less.prems by simp
  have nn: "NUL \<notin> set (drop p c)" using assms by (meson in_set_dropD)
  show ?case
  proof (cases "LF \<in> set (drop p c)")
    case False
    then have "strchr_scan (drop p c @ NUL # rest) LF p = Inr None"
      using nn chars_distinct by (intro strchr_scan_absent) auto
    then have "Strchr ?m p (char_val LF) = Inr None"
      by (simp only: Strchr_def Strchr_loop_scan dr)
    moreover have "filter (\<lambda>x. x = LF) (drop p c) = []"
      using False by (auto simp: filter_empty_conv)
    ultimately show ?thesis by (simp add: count_lines.simps [of ?m p k])
  next
    case True
    then obtain pre post where sp: "drop p c = pre @ LF # post" "LF \<notin> set pre"
      by (meson split_list_first)
    have "strchr_scan (pre @ LF # (post @ NUL # rest)) LF p = Inr (Some (p + length pre))"
      using sp nn by (intro strchr_scan_found) auto
    then have found: "Strchr ?m p (char_val LF) = Inr (Some (p + length pre))"
      by (simp only: Strchr_def Strchr_loop_scan dr sp append_assoc append_Cons)
    let ?q = "p + length pre"
    have lens: "length c - p = length pre + Suc (length post)"
      using sp(1) by (metis length_drop length_append length_Cons)
    then have q: "Suc ?q \<le> length c" "length c - Suc ?q < length c - p" by simp_all
    have dq: "drop (Suc ?q) c = post"
    proof -
      have "drop (Suc ?q) c = drop (Suc (length pre)) (drop p c)" by (simp add: add.commute)
      then show ?thesis by (simp add: sp)
    qed
    have "count_lines ?m (Suc ?q) (Suc k) = Inr (Suc k + length (filter (\<lambda>x. x = LF) (drop (Suc ?q) c)))"
      by (rule less.hyps [OF q(2) q(1)])
    moreover have "filter (\<lambda>x. x = LF) (drop p c) = LF # filter (\<lambda>x. x = LF) post"
      using sp by (auto simp: filter_empty_conv)
    ultimately show ?thesis using found by (simp add: count_lines.simps [of ?m p k] dq)
  qed
qed

subsection \<open>The body of readLines\<close>

lemma readLines_exit_ok:
  "errno s = 0 \<Longrightarrow> readLines_exit e want lnCnt buf lines s =
     Inr (\<lparr>rl_lines = lines, rl_lineCount = (if want then Some lnCnt else None)\<rparr>, s\<lparr>errno := e\<rparr>)"
  by (simp add: readLines_exit_def)

lemma readLines_exit_lines:
  "readLines_exit e want lnCnt buf lines s = Inr (r, s') \<Longrightarrow> rl_lines r = lines"
  by (auto simp: readLines_exit_def bindF_Inr_iff split: if_splits)

lemma readLines_fill_result:
  assumes run: "readLines_fill e want lnCnt (length H) m n (Suc (length H)) s = Inr (r, s')"
    and e0: "errno s = 0"
    and hp: "heap s = H @ [Some (Chars m), Some (Cells tab0)]"
  shows "r = \<lparr>rl_lines = Some (Ptr (Suc (length H)) 0),
              rl_lineCount = (if want then Some lnCnt else None)\<rparr> \<and> errno s' = e \<and>
     (\<exists>tab. length tab = length tab0 \<and>
        (n \<noteq> 0 \<and> (\<exists>m'. heap s' = H @ [Some (Chars m'), Some (Cells tab)]) \<and>
           tab ! 0 = Val (Some (Ptr (length H) 0)) \<and> 2 \<le> length tab
         \<or> n = 0 \<and> heap s' = H @ [None, Some (Cells tab)] \<and> tab ! 0 = Val None \<and>
           1 \<le> length tab))"
proof -
  have bc: "block_cells (heap s) (Suc (length H)) = Inr tab0"
    using hp by (simp add: block_cells_def nth_append)
  show ?thesis
  proof (cases "n = 0")
    case True
    have fr: "free (Some (Ptr (length H) 0)) s = Inr (s\<lparr>heap := H @ [None, Some (Cells tab0)]\<rparr>)"
      using hp by (simp add: free_def nth_append list_update_append)
    from run True bc fr obtain tab1 where st: "store tab0 0 (Val None) = Inr tab1"
      and ex: "readLines_exit e want lnCnt None (Some (Ptr (Suc (length H)) 0))
         (put_block (Suc (length H)) (Cells tab1) (s\<lparr>heap := H @ [None, Some (Cells tab0)]\<rparr>))
         = Inr (r, s')"
      by (auto simp: readLines_fill_def bindF_Inr_iff)
    from st have t1: "0 < length tab0" "tab1 = tab0[0 := Val None]"
      by (auto simp: store_Inr_iff)
    let ?s2 = "put_block (Suc (length H)) (Cells tab1) (s\<lparr>heap := H @ [None, Some (Cells tab0)]\<rparr>)"
    have h2: "heap ?s2 = H @ [None, Some (Cells tab1)]"
      by (simp add: put_block_def list_update_append)
    have e2: "errno ?s2 = 0" using e0 by (simp add: put_block_def)
    from ex readLines_exit_ok [OF e2, of e want lnCnt None "Some (Ptr (Suc (length H)) 0)"]
    have "r = \<lparr>rl_lines = Some (Ptr (Suc (length H)) 0),
              rl_lineCount = (if want then Some lnCnt else None)\<rparr>" "s' = ?s2\<lparr>errno := e\<rparr>"
      by simp_all
    moreover have "1 \<le> length tab1" "length tab1 = length tab0" "tab1 ! 0 = Val None"
      using t1 by (simp_all add: Suc_le_eq)
    ultimately show ?thesis using h2 True by (intro conjI exI [of _ tab1]) auto
  next
    case False
    from run False bc obtain tab1 m' tab2 ln tab3 where
      st1: "store tab0 0 (Val (Some (Ptr (length H) 0))) = Inr tab1"
      and sp: "split_lines (length H) m tab1 0 1 = Inr (m', tab2, ln)"
      and st3: "store tab2 ln (Val None) = Inr tab3"
      and ex: "readLines_exit e want lnCnt (Some (Ptr (length H) 0)) (Some (Ptr (Suc (length H)) 0))
         (put_block (Suc (length H)) (Cells tab3) (put_block (length H) (Chars m') s)) = Inr (r, s')"
      by (auto simp: readLines_fill_def bindF_Inr_iff)
    from st1 have t1: "0 < length tab0" "tab1 = tab0[0 := Val (Some (Ptr (length H) 0))]"
      by (auto simp: store_Inr_iff)
    from split_lines_frame [OF sp] have fr: "1 \<le> ln" "length tab2 = length tab1"
      "tab2 ! 0 = tab1 ! 0" by auto
    from st3 have t3: "ln < length tab2" "tab3 = tab2[ln := Val None]"
      by (auto simp: store_Inr_iff)
    have c0: "tab3 ! 0 = Val (Some (Ptr (length H) 0))"
      using t1 t3 fr by simp
    have l3: "length tab3 = length tab0" "2 \<le> length tab3"
      using t1 t3 fr by simp_all
    let ?s2 = "put_block (Suc (length H)) (Cells tab3) (put_block (length H) (Chars m') s)"
    have h2: "heap ?s2 = H @ [Some (Chars m'), Some (Cells tab3)]"
      using hp by (simp add: put_block_def list_update_append)
    have e2: "errno ?s2 = 0" using e0 by (simp add: put_block_def)
    from ex readLines_exit_ok [OF e2, of e want lnCnt "Some (Ptr (length H) 0)" "Some (Ptr (Suc (length H)) 0)"]
    have "r = \<lparr>rl_lines = Some (Ptr (Suc (length H)) 0),
              rl_lineCount = (if want then Some lnCnt else None)\<rparr>" "s' = ?s2\<lparr>errno := e\<rparr>"
      by simp_all
    with h2 c0 l3 False show ?thesis by (intro conjI exI [of _ tab3]) auto
  qed
qed

lemma readLines_split_result:
  assumes run: "readLines_split E e want maxSize (length H) n s = Inr (r, s')"
    and e0: "errno s = 0"
    and hp: "heap s = H @ [Some (Chars m)]"
    and lines: "rl_lines r = Some p"
  shows "\<exists>lnCnt tab. p = Ptr (Suc (length H)) 0 \<and> errno s' = e \<and>
     rl_lineCount r = (if want then Some lnCnt else None) \<and>
     (n \<noteq> 0 \<longrightarrow> n - 1 < length m) \<and>
     count_lines m 0 (if n \<noteq> 0 \<and> m ! (n - 1) \<noteq> LF then 1 else 0) = Inr lnCnt \<and>
     length tab = lnCnt + 1 \<and>
     (n \<noteq> 0 \<and> (\<exists>m'. heap s' = H @ [Some (Chars m'), Some (Cells tab)]) \<and>
        tab ! 0 = Val (Some (Ptr (length H) 0)) \<and> 2 \<le> length tab
      \<or> n = 0 \<and> heap s' = H @ [None, Some (Cells tab)] \<and> tab ! 0 = Val None)"
proof -
  have bc: "block_chars (heap s) (length H) = Inr m"
    using hp by simp
  from run bc obtain lnCnt0 lnCnt where
    l0: "(if n \<noteq> 0 then bindF (load m (n - 1)) (\<lambda>ch. Inr (if ch \<noteq> LF then 1 else 0))
          else Inr 0) = Inr lnCnt0"
    and cl: "count_lines m 0 lnCnt0 = Inr lnCnt"
    and rest: "(let linesSize = (lnCnt + 1) * sizeof_ptr in
           if maxSize = 0 \<or> linesSize + n + 1 \<le> maxSize then
             (case malloc E linesSize (fresh_cells linesSize) s of
                (None, s) \<Rightarrow> readLines_exit e want lnCnt (Some (Ptr (length H) 0)) None s
              | (Some lines, s) \<Rightarrow> readLines_fill e want lnCnt (length H) m n lines s)
           else
             readLines_exit e want lnCnt (Some (Ptr (length H) 0)) None
               (s\<lparr>errno := EFBIG\<rparr>)) = Inr (r, s')"
    by (auto simp: readLines_split_def bindF_Inr_iff)
  from l0 have ld: "n \<noteq> 0 \<longrightarrow> n - 1 < length m"
    and l0': "lnCnt0 = (if n \<noteq> 0 \<and> m ! (n - 1) \<noteq> LF then 1 else 0)"
    by (auto simp: load_def bindF_Inr_iff split: if_splits)
  let ?sz = "(lnCnt + 1) * sizeof_ptr"
  have fits: "maxSize = 0 \<or> ?sz + n + 1 \<le> maxSize"
  proof (rule ccontr)
    assume "\<not> ?thesis"
    with rest have "readLines_exit e want lnCnt (Some (Ptr (length H) 0)) None
               (s\<lparr>errno := EFBIG\<rparr>) = Inr (r, s')"
      by (simp add: Let_def)
    from readLines_exit_lines [OF this] lines show False by simp
  qed
  have mok: "malloc_r E (length (heap s)) ?sz = None"
  proof (cases "malloc_r E (length (heap s)) ?sz")
    case None
    then show ?thesis .
  next
    case (Some ec)
    with rest fits have "readLines_exit e want lnCnt (Some (Ptr (length H) 0)) None
               (s\<lparr>errno := ec\<rparr>) = Inr (r, s')"
      by (simp add: Let_def malloc_def)
    from readLines_exit_lines [OF this] lines show ?thesis by simp
  qed
  let ?tab0 = "replicate (lnCnt + 1) Indet"
  let ?s1 = "s\<lparr>heap := heap s @ [Some (fresh_cells ?sz)]\<rparr>"
  have fc: "fresh_cells ?sz = Cells ?tab0"
    by (simp add: fresh_cells_def sizeof_ptr_def)
  from rest fits mok hp have fill: "readLines_fill e want lnCnt (length H) m n (Suc (length H)) ?s1
      = Inr (r, s')"
    by (simp add: Let_def malloc_def)
  have hp1: "heap ?s1 = H @ [Some (Chars m), Some (Cells ?tab0)]"
    using hp fc by simp
  have e1: "errno ?s1 = 0" using e0 by simp
  from readLines_fill_result [OF fill e1 hp1] lines obtain tab where
    "p = Ptr (Suc (length H)) 0" "errno s' = e"
    "rl_lineCount r = (if want then Some lnCnt else None)"
    "length tab = lnCnt + 1"
    "n \<noteq> 0 \<and> (\<exists>m'. heap s' = H @ [Some (Chars m'), Some (Cells tab)]) \<and>
        tab ! 0 = Val (Some (Ptr (length H) 0)) \<and> 2 \<le> length tab
      \<or> n = 0 \<and> heap s' = H @ [None, Some (Cells tab)] \<and> tab ! 0 = Val None"
    by auto
  with ld cl l0' show ?thesis by blast
qed

lemma readLines_success:
  assumes run: "readLines E fileName maxSize want s = Inr (r, s')"
    and lines: "rl_lines r = Some p"
  shows "\<exists>H bytes m n lnCnt tab r1 s1.
     readFile E fileName 1 1 maxSize True (s\<lparr>errno := 0\<rparr>) = Inr (r1, s1) \<and>
     fopen_r E = Inr bytes \<and> rf_length r1 = Some n \<and> rf_buf r1 = Some (Ptr (length H) 0) \<and>
     heap s1 = H @ [Some (Chars m)] \<and> (H = heap s \<or> H = heap s @ [None]) \<and>
     p = Ptr (Suc (length H)) 0 \<and> errno s' = errno s \<and>
     rl_lineCount r = (if want then Some lnCnt else None) \<and>
     (n \<noteq> 0 \<longrightarrow> n - 1 < length m) \<and>
     count_lines m 0 (if n \<noteq> 0 \<and> m ! (n - 1) \<noteq> LF then 1 else 0) = Inr lnCnt \<and>
     length tab = lnCnt + 1 \<and>
     (n \<noteq> 0 \<and> (\<exists>m'. heap s' = H @ [Some (Chars m'), Some (Cells tab)]) \<and>
        tab ! 0 = Val (Some (Ptr (length H) 0)) \<and> 2 \<le> length tab
      \<or> n = 0 \<and> heap s' = H @ [None, Some (Cells tab)] \<and> tab ! 0 = Val None) \<and>
     (posix E \<longrightarrow> n < length m \<and> m ! n = NUL \<and>
        (NUL \<notin> set bytes \<longrightarrow> take n m = filter (\<lambda>c. c \<noteq> CR) bytes))"
proof -
  from run obtain r1 s1 where rf: "readFile E fileName 1 1 maxSize True (s\<lparr>errno := 0\<rparr>) = Inr (r1, s1)"
    and rest: "(case rf_buf r1 of
          None \<Rightarrow> readLines_exit (errno s) want 0 None None s1
        | Some (Ptr buf off) \<Rightarrow>
            (case rf_length r1 of
               None \<Rightarrow> Inl Uninitialised
             | Some length' \<Rightarrow> readLines_split E (errno s) want maxSize buf length' s1)) = Inr (r, s')"
    by (auto simp: readLines_def Let_def bindF_Inr_iff)
  have "rf_buf r1 \<noteq> None"
  proof
    assume "rf_buf r1 = None"
    with rest have "readLines_exit (errno s) want 0 None None s1 = Inr (r, s')" by simp
    from readLines_exit_lines [OF this] lines show False by simp
  qed
  then obtain q where q: "rf_buf r1 = Some q" by auto
  from readFile_success [OF rf q] obtain bytes b m n where
    fo: "fopen_r E = Inr bytes" and qb: "q = Ptr b 0" and len: "rf_length r1 = Some n"
    and e1: "errno s1 = 0"
    and hp: "heap s1 = heap s @ [Some (Chars m)] \<and> b = length (heap s) \<or>
      heap s1 = heap s @ [None, Some (Chars m)] \<and> b = Suc (length (heap s))"
    and px: "posix E \<longrightarrow> n < length m \<and> m ! n = NUL \<and>
        (NUL \<notin> set bytes \<longrightarrow> take n m = filter (\<lambda>c. c \<noteq> CR) bytes)"
    by auto
  define H where "H = (if b = length (heap s) then heap s else heap s @ [None])"
  from hp have H: "heap s1 = H @ [Some (Chars m)]" "b = length H" "H = heap s \<or> H = heap s @ [None]"
    by (auto simp: H_def)
  from rest q qb len H(2) have sp: "readLines_split E (errno s) want maxSize (length H) n s1 = Inr (r, s')"
    by simp
  from readLines_split_result [OF sp e1 H(1) lines] obtain lnCnt tab where
    "p = Ptr (Suc (length H)) 0" "errno s' = errno s"
    "rl_lineCount r = (if want then Some lnCnt else None)"
    "n \<noteq> 0 \<longrightarrow> n - 1 < length m"
    "count_lines m 0 (if n \<noteq> 0 \<and> m ! (n - 1) \<noteq> LF then 1 else 0) = Inr lnCnt"
    "length tab = lnCnt + 1"
    "n \<noteq> 0 \<and> (\<exists>m'. heap s' = H @ [Some (Chars m'), Some (Cells tab)]) \<and>
        tab ! 0 = Val (Some (Ptr (length H) 0)) \<and> 2 \<le> length tab
      \<or> n = 0 \<and> heap s' = H @ [None, Some (Cells tab)] \<and> tab ! 0 = Val None"
    by blast
  with rf fo len q qb H px show ?thesis by blast
qed

lemma nth_new_block:
  assumes "length h \<le> i" "i < length (h @ xs)" "\<forall>k < length xs. length h + k \<noteq> j \<longrightarrow> xs ! k = None"
    "i \<noteq> j"
  shows "(h @ xs) ! i = None"
proof -
  from assms(1) obtain k where k: "i = length h + k" by (metis le_Suc_ex)
  with assms(2) have "k < length xs" by simp
  with assms(3,4) k have "xs ! k = None" by simp
  with k show ?thesis by (simp add: nth_append_length_plus)
qed

lemma new_blocks_freed2:
  assumes "H = h \<or> H = h @ [None]" "length h \<le> i" "i < length (H @ [None, None])"
  shows "(H @ [None, None]) ! i = None"
  using assms(1)
proof
  assume H: "H = h"
  show ?thesis unfolding H
    by (rule nth_new_block [where j = "Suc i"]) (use assms H in \<open>auto simp: nth_Cons'\<close>)
next
  assume H: "H = h @ [None]"
  have "(h @ [None, None, None]) ! i = None"
    by (rule nth_new_block [where j = "Suc i"]) (use assms H in \<open>auto simp: nth_Cons'\<close>)
  then show ?thesis by (simp add: H)
qed

lemma new_blocks_freed1:
  assumes "H = h \<or> H = h @ [None]" "length h \<le> i" "i < length (H @ [None, x])" "i \<noteq> Suc (length H)"
  shows "(H @ [None, x]) ! i = None"
  using assms(1)
proof
  assume H: "H = h"
  show ?thesis unfolding H
    by (rule nth_new_block [where j = "Suc (length h)"]) (use assms H in \<open>auto simp: nth_Cons'\<close>)
next
  assume H: "H = h @ [None]"
  have "(h @ [None, None, x]) ! i = None"
    by (rule nth_new_block [where j = "Suc (Suc (length h))"])
       (use assms H in \<open>auto simp: nth_Cons'\<close>)
  then show ?thesis by (simp add: H)
qed

subsection \<open>readLines on files without NUL bytes\<close>

lemma starts_from_none:
  "p \<le> length c \<Longrightarrow> LF \<notin> set (drop p c) \<Longrightarrow> starts_from c p = []"
proof -
  assume a: "p \<le> length c" "LF \<notin> set (drop p c)"
  have "c ! i \<noteq> LF" if "p \<le> i" "i < length c" for i
  proof -
    have "drop p c ! (i - p) = c ! i" using that a(1) by simp
    moreover have "i - p < length (drop p c)" using that by simp
    ultimately show ?thesis using a(2) by (metis nth_mem)
  qed
  then show ?thesis by (auto simp: starts_from_def filter_empty_conv)
qed

lemma starts_from_step:
  assumes "drop p c = pre @ LF # post" "LF \<notin> set pre"
  shows "starts_from c p = (if post = [] then [] else [Suc (p + length pre)]) @ starts_from c (Suc (p + length pre))"
proof -
  let ?q = "p + length pre"
  let ?P = "\<lambda>i. c ! i = LF \<and> Suc i < length c"
  have len: "length c - p = length pre + Suc (length post)"
    using assms(1) by (metis length_drop length_append length_Cons)
  then have q: "?q < length c" "p \<le> ?q" by simp_all
  have cq: "c ! ?q = LF"
  proof -
    have "c ! ?q = drop p c ! length pre" using q by simp
    then show ?thesis by (simp add: assms(1))
  qed
  have pre: "c ! i \<noteq> LF" if "p \<le> i" "i < ?q" for i
  proof -
    from that have k: "i - p < length pre" by arith
    have "c ! i = drop p c ! (i - p)" using that q by simp
    also have "\<dots> = pre ! (i - p)" using k by (simp add: assms(1) nth_append)
    finally have "c ! i \<in> set pre" using k by simp
    with assms(2) show ?thesis by metis
  qed
  have split: "[p..<length c] = [p..<?q] @ ?q # [Suc ?q..<length c]"
    using q by (metis le_add1 upt_add_eq_append upt_conv_Cons less_imp_le_nat le_Suc_ex)
  have f1: "filter ?P [p..<?q] = []"
    using pre by (auto simp: filter_empty_conv)
  have "length post = 0 \<longleftrightarrow> Suc ?q = length c"
    using len q by arith
  then have post: "post = [] \<longleftrightarrow> Suc ?q = length c"
    by simp
  show ?thesis
    unfolding starts_from_def split using f1 cq post q by auto
qed

lemma map_lf_to_nul_id: "LF \<notin> set xs \<Longrightarrow> map lf_to_nul xs = xs"
  by (induction xs) (auto simp: lf_to_nul_def)

lemma split_lines_clean:
  assumes nn: "NUL \<notin> set c"
  shows "p \<le> length c \<Longrightarrow> m = map lf_to_nul (take p c) @ drop p c @ NUL # rest \<Longrightarrow>
     ln + length (starts_from c p) \<le> length tab \<Longrightarrow>
     split_lines bb m tab p ln =
       Inr (map lf_to_nul c @ NUL # rest,
            take ln tab @ map (\<lambda>k. Val (Some (Ptr bb k))) (starts_from c p)
              @ drop (ln + length (starts_from c p)) tab,
            ln + length (starts_from c p))"
proof (induction "length c - p" arbitrary: p m tab ln rule: less_induct)
  case less
  note m = less.prems(2)
  have lp: "length (map lf_to_nul (take p c)) = p"
    using less.prems(1) by simp
  have dr: "drop p m = drop p c @ NUL # rest"
    unfolding m using less.prems(1) by simp
  have nd: "NUL \<notin> set (drop p c)" using nn by (meson in_set_dropD)
  show ?case
  proof (cases "LF \<in> set (drop p c)")
    case False
    then have "strchr_scan (drop p c @ NUL # rest) LF p = Inr None"
      using nd chars_distinct by (intro strchr_scan_absent) auto
    then have none: "Strchr m p (char_val LF) = Inr None"
      by (simp only: Strchr_def Strchr_loop_scan dr)
    have st: "starts_from c p = []"
      using less.prems(1) False by (rule starts_from_none)
    have "map lf_to_nul (take p c @ drop p c) = map lf_to_nul (take p c) @ drop p c"
      using map_lf_to_nul_id [OF False] by (simp only: map_append)
    then have "map lf_to_nul c = map lf_to_nul (take p c) @ drop p c"
      by (simp only: append_take_drop_id)
    then have meq: "m = map lf_to_nul c @ NUL # rest"
      unfolding m by simp
    have "split_lines bb m tab p ln = Inr (m, tab, ln)"
      using none by (subst split_lines.simps) simp
    also have "\<dots> = Inr (map lf_to_nul c @ NUL # rest, tab, ln)"
      using meq by simp
    finally show ?thesis using st by simp
  next
    case True
    then obtain pre post where sp: "drop p c = pre @ LF # post" "LF \<notin> set pre"
      by (meson split_list_first)
    let ?q = "p + length pre"
    have "strchr_scan (pre @ LF # (post @ NUL # rest)) LF p = Inr (Some ?q)"
      using sp nd by (intro strchr_scan_found) auto
    then have found: "Strchr m p (char_val LF) = Inr (Some ?q)"
      by (simp only: Strchr_def Strchr_loop_scan dr sp append_assoc append_Cons)
    have len: "length c - p = length pre + Suc (length post)"
      using sp(1) by (metis length_drop length_append length_Cons)
    then have q: "?q < length c" "Suc ?q \<le> length c" "length c - Suc ?q < length c - p"
      by simp_all
    have lm: "length m = Suc (length c + length rest)"
      unfolding m using less.prems(1) by simp
    have sq: "Suc ?q < length m" using q lm by simp
    have tk: "take (Suc ?q) c = take p c @ pre @ [LF]"
    proof -
      have "take (p + Suc (length pre)) c = take p c @ take (Suc (length pre)) (drop p c)"
        by (rule take_add)
      then show ?thesis by (simp add: sp)
    qed
    have dq: "drop (Suc ?q) c = post"
    proof -
      have "drop (Suc ?q) c = drop (Suc (length pre)) (drop p c)" by (simp add: add.commute)
      then show ?thesis by (simp add: sp)
    qed
    have m_alt: "m = (map lf_to_nul (take p c) @ pre) @ LF # (post @ NUL # rest)"
      unfolding m by (simp add: sp)
    have lq: "length (map lf_to_nul (take p c) @ pre) = ?q"
      using less.prems(1) by simp
    have m1: "m[?q := NUL] = map lf_to_nul (take (Suc ?q) c) @ drop (Suc ?q) c @ NUL # rest"
    proof -
      have "m[?q := NUL] = (map lf_to_nul (take p c) @ pre) @ NUL # (post @ NUL # rest)"
        unfolding m_alt lq [symmetric] by (rule list_update_length)
      moreover have "map lf_to_nul (take (Suc ?q) c) = map lf_to_nul (take p c) @ pre @ [NUL]"
        by (simp add: tk map_lf_to_nul_id [OF sp(2)] lf_to_nul_def)
      ultimately show ?thesis by (simp add: dq)
    qed
    have nxt: "m[?q := NUL] ! Suc ?q = (post @ NUL # rest) ! 0"
    proof -
      have "m[?q := NUL] = (map lf_to_nul (take p c) @ pre) @ NUL # (post @ NUL # rest)"
        unfolding m_alt lq [symmetric] by (rule list_update_length)
      then have a: "m[?q := NUL] = (map lf_to_nul (take p c) @ pre @ [NUL]) @ (post @ NUL # rest)"
        by simp
      have b: "length (map lf_to_nul (take p c) @ pre @ [NUL]) = Suc ?q"
        using less.prems(1) by simp
      have "((map lf_to_nul (take p c) @ pre @ [NUL]) @ (post @ NUL # rest))
               ! (length (map lf_to_nul (take p c) @ pre @ [NUL]) + 0) = (post @ NUL # rest) ! 0"
        by (rule nth_append_length_plus)
      then show ?thesis unfolding a b by simp
    qed
    note st = starts_from_step [OF sp]
    show ?thesis
    proof (cases post)
      case Nil
      with nxt have z: "m[?q := NUL] ! Suc ?q = NUL" by simp
      from st Nil have st': "starts_from c p = starts_from c (Suc ?q)" by simp
      have cap: "ln + length (starts_from c (Suc ?q)) \<le> length tab"
        using less.prems(3) st' by simp
      have "split_lines bb (m[?q := NUL]) tab (Suc ?q) ln =
         Inr (map lf_to_nul c @ NUL # rest,
            take ln tab @ map (\<lambda>k. Val (Some (Ptr bb k))) (starts_from c (Suc ?q))
              @ drop (ln + length (starts_from c (Suc ?q))) tab,
            ln + length (starts_from c (Suc ?q)))"
        by (rule less.hyps [OF q(3) q(2) m1 cap])
      moreover have "split_lines bb m tab p ln = split_lines bb (m[?q := NUL]) tab (Suc ?q) ln"
        using found sq z by (subst split_lines.simps) simp
      ultimately show ?thesis using st' by simp
    next
      case (Cons x post')
      with nxt have "m[?q := NUL] ! Suc ?q = x" by simp
      moreover have "x \<in> set (drop p c)" using Cons sp(1) by simp
      then have "x \<in> set c" by (rule in_set_dropD)
      ultimately have nz: "m[?q := NUL] ! Suc ?q \<noteq> NUL" using nn by auto
      from st Cons have st': "starts_from c p = Suc ?q # starts_from c (Suc ?q)" by simp
      have lt: "ln < length tab" using less.prems(3) st' by simp
      let ?tab1 = "tab[ln := Val (Some (Ptr bb (Suc ?q)))]"
      have cap: "Suc ln + length (starts_from c (Suc ?q)) \<le> length ?tab1"
        using less.prems(3) st' by simp
      have rec: "split_lines bb (m[?q := NUL]) ?tab1 (Suc ?q) (Suc ln) =
         Inr (map lf_to_nul c @ NUL # rest,
            take (Suc ln) ?tab1 @ map (\<lambda>k. Val (Some (Ptr bb k))) (starts_from c (Suc ?q))
              @ drop (Suc ln + length (starts_from c (Suc ?q))) ?tab1,
            Suc ln + length (starts_from c (Suc ?q)))"
        by (rule less.hyps [OF q(3) q(2) m1 cap])
      have t1: "take (Suc ln) ?tab1 = take ln tab @ [Val (Some (Ptr bb (Suc ?q)))]"
        using lt by (simp add: take_Suc_conv_app_nth)
      have t2: "drop (Suc ln + length (starts_from c (Suc ?q))) ?tab1
                  = drop (Suc ln + length (starts_from c (Suc ?q))) tab"
        by simp
      have "split_lines bb m tab p ln = split_lines bb (m[?q := NUL]) ?tab1 (Suc ?q) (Suc ln)"
        using found sq nz lt by (subst split_lines.simps) simp
      with rec show ?thesis by (simp add: st' t1 t2)
    qed
  qed
qed

lemma length_filter_index:
  "length (filter (\<lambda>i. P (xs ! i)) [0..<length xs]) = length (filter P xs)"
proof (induction xs rule: rev_induct)
  case Nil
  then show ?case by simp
next
  case (snoc x xs)
  have "filter (\<lambda>i. P ((xs @ [x]) ! i)) [0..<length xs] = filter (\<lambda>i. P (xs ! i)) [0..<length xs]"
    by (rule filter_cong) (auto simp: nth_append)
  with snoc show ?case by simp
qed

lemma length_starts_from_snoc:
  "length (starts_from (xs @ [x]) 0) = length (filter (\<lambda>c. c = LF) xs)"
proof -
  have "filter (\<lambda>i. (xs @ [x]) ! i = LF \<and> Suc i < length (xs @ [x])) [0..<length xs]
          = filter (\<lambda>i. xs ! i = LF) [0..<length xs]"
    by (rule filter_cong) (auto simp: nth_append)
  then have "length (starts_from (xs @ [x]) 0) = length (filter (\<lambda>i. xs ! i = LF) [0..<length xs])"
    by (simp add: starts_from_def)
  then show ?thesis by (simp add: length_filter_index [of "\<lambda>c. c = LF" xs])
qed

lemma length_line_starts: "length (line_starts c) = claimed_lineCount c"
proof (cases c rule: rev_cases)
  case Nil
  then show ?thesis by (simp add: line_starts_def claimed_lineCount_def)
next
  case (snoc xs x)
  then show ?thesis
    by (simp add: line_starts_def claimed_lineCount_def length_starts_from_snoc)
qed

lemma sorted_line_starts: "sorted_wrt (<) (line_starts c)"
proof -
  have "sorted_wrt (<) (filter (\<lambda>i. c ! i = LF \<and> Suc i < length c) [0..<length c])"
    by (rule sorted_wrt_filter) simp
  then have "sorted_wrt (<) (starts_from c 0)"
    by (simp add: starts_from_def sorted_wrt_map)
  moreover have "\<forall>k \<in> set (starts_from c 0). 0 < k"
    by (auto simp: starts_from_def)
  ultimately show ?thesis by (simp add: line_starts_def)
qed

lemma readLines_to_split:
  assumes run: "readLines E fileName maxSize want s = Inr (r, s')"
    and lines: "rl_lines r = Some p"
  shows "\<exists>r1 s1 q n. readFile E fileName 1 1 maxSize True (s\<lparr>errno := 0\<rparr>) = Inr (r1, s1) \<and>
     rf_buf r1 = Some q \<and> rf_length r1 = Some n \<and>
     (\<forall>b. q = Ptr b 0 \<longrightarrow> readLines_split E (errno s) want maxSize b n s1 = Inr (r, s'))"
proof -
  from run obtain r1 s1 where rf: "readFile E fileName 1 1 maxSize True (s\<lparr>errno := 0\<rparr>) = Inr (r1, s1)"
    and rest: "(case rf_buf r1 of
          None \<Rightarrow> readLines_exit (errno s) want 0 None None s1
        | Some (Ptr buf off) \<Rightarrow>
            (case rf_length r1 of
               None \<Rightarrow> Inl Uninitialised
             | Some length' \<Rightarrow> readLines_split E (errno s) want maxSize buf length' s1)) = Inr (r, s')"
    by (auto simp: readLines_def Let_def bindF_Inr_iff)
  have "rf_buf r1 \<noteq> None"
  proof
    assume "rf_buf r1 = None"
    with rest have "readLines_exit (errno s) want 0 None None s1 = Inr (r, s')" by simp
    from readLines_exit_lines [OF this] lines show False by simp
  qed
  then obtain q where q: "rf_buf r1 = Some q" by auto
  from readFile_success [OF rf q] obtain n where len: "rf_length r1 = Some n"
    by auto
  from rest q len have "\<forall>b. q = Ptr b 0 \<longrightarrow> readLines_split E (errno s) want maxSize b n s1 = Inr (r, s')"
    by auto
  with rf q len show ?thesis by blast
qed

lemma readLines_split_to_fill:
  assumes run: "readLines_split E e want maxSize (length H) n s = Inr (r, s')"
    and hp: "heap s = H @ [Some (Chars m)]"
    and lines: "rl_lines r = Some p"
  shows "\<exists>lnCnt. count_lines m 0 (if n \<noteq> 0 \<and> m ! (n - 1) \<noteq> LF then 1 else 0) = Inr lnCnt \<and>
     readLines_fill e want lnCnt (length H) m n (Suc (length H))
       (s\<lparr>heap := H @ [Some (Chars m), Some (Cells (replicate (lnCnt + 1) Indet))]\<rparr>) = Inr (r, s')"
proof -
  have bc: "block_chars (heap s) (length H) = Inr m"
    using hp by simp
  from run bc obtain lnCnt0 lnCnt where
    l0: "(if n \<noteq> 0 then bindF (load m (n - 1)) (\<lambda>ch. Inr (if ch \<noteq> LF then 1 else 0))
          else Inr 0) = Inr lnCnt0"
    and cl: "count_lines m 0 lnCnt0 = Inr lnCnt"
    and rest: "(let linesSize = (lnCnt + 1) * sizeof_ptr in
           if maxSize = 0 \<or> linesSize + n + 1 \<le> maxSize then
             (case malloc E linesSize (fresh_cells linesSize) s of
                (None, s) \<Rightarrow> readLines_exit e want lnCnt (Some (Ptr (length H) 0)) None s
              | (Some lines, s) \<Rightarrow> readLines_fill e want lnCnt (length H) m n lines s)
           else
             readLines_exit e want lnCnt (Some (Ptr (length H) 0)) None
               (s\<lparr>errno := EFBIG\<rparr>)) = Inr (r, s')"
    by (auto simp: readLines_split_def bindF_Inr_iff)
  from l0 have l0': "lnCnt0 = (if n \<noteq> 0 \<and> m ! (n - 1) \<noteq> LF then 1 else 0)"
    by (auto simp: load_def bindF_Inr_iff split: if_splits)
  let ?sz = "(lnCnt + 1) * sizeof_ptr"
  have fits: "maxSize = 0 \<or> ?sz + n + 1 \<le> maxSize"
  proof (rule ccontr)
    assume "\<not> ?thesis"
    with rest have "readLines_exit e want lnCnt (Some (Ptr (length H) 0)) None
               (s\<lparr>errno := EFBIG\<rparr>) = Inr (r, s')"
      by (simp add: Let_def)
    from readLines_exit_lines [OF this] lines show False by simp
  qed
  have mok: "malloc_r E (length (heap s)) ?sz = None"
  proof (cases "malloc_r E (length (heap s)) ?sz")
    case None
    then show ?thesis .
  next
    case (Some ec)
    with rest fits have "readLines_exit e want lnCnt (Some (Ptr (length H) 0)) None
               (s\<lparr>errno := ec\<rparr>) = Inr (r, s')"
      by (simp add: Let_def malloc_def)
    from readLines_exit_lines [OF this] lines show ?thesis by simp
  qed
  have fc: "fresh_cells ?sz = Cells (replicate (lnCnt + 1) Indet)"
    by (simp add: fresh_cells_def sizeof_ptr_def)
  from rest fits mok hp fc have "readLines_fill e want lnCnt (length H) m n (Suc (length H))
       (s\<lparr>heap := H @ [Some (Chars m), Some (Cells (replicate (lnCnt + 1) Indet))]\<rparr>) = Inr (r, s')"
    by (simp add: Let_def malloc_def)
  with cl l0' show ?thesis by blast
qed

lemma readLines_fill_clean:
  assumes run: "readLines_fill e want lnCnt (length H) m n (Suc (length H)) s = Inr (r, s')"
    and e0: "errno s = 0"
    and hp: "heap s = H @ [Some (Chars m), Some (Cells (replicate (lnCnt + 1) Indet))]"
    and m: "m = c @ NUL # rest" and n: "n = length c" and nn: "NUL \<notin> set c"
    and cnt: "lnCnt = length (line_starts c)"
  shows "rl_lines r = Some (Ptr (Suc (length H)) 0) \<and>
     rl_lineCount r = (if want then Some lnCnt else None) \<and>
     block_cells (heap s') (Suc (length H))
       = Inr (map (\<lambda>k. Val (Some (Ptr (length H) k))) (line_starts c) @ [Val None]) \<and>
     (c \<noteq> [] \<longrightarrow> block_chars (heap s') (length H) = Inr (map lf_to_nul c @ NUL # rest))"
proof -
  let ?mk = "\<lambda>k. Val (Some (Ptr (length H) k))"
  let ?tab0 = "replicate (lnCnt + 1) Indet"
  have bc: "block_cells (heap s) (Suc (length H)) = Inr ?tab0"
    using hp by (simp add: block_cells_def nth_append)
  show ?thesis
  proof (cases "c = []")
    case True
    with n cnt have z: "n = 0" "lnCnt = 0" by (simp_all add: line_starts_def)
    have fr: "free (Some (Ptr (length H) 0)) s = Inr (s\<lparr>heap := H @ [None, Some (Cells ?tab0)]\<rparr>)"
      using hp by (simp add: free_def nth_append list_update_append)
    let ?s2 = "put_block (Suc (length H)) (Cells [Val None]) (s\<lparr>heap := H @ [None, Some (Cells ?tab0)]\<rparr>)"
    have st: "store ?tab0 0 (Val None) = Inr [Val None]"
      using z by (simp add: store_def)
    from run z bc fr st have ex: "readLines_exit e want lnCnt None (Some (Ptr (Suc (length H)) 0)) ?s2
         = Inr (r, s')"
      by (simp add: readLines_fill_def)
    have e2: "errno ?s2 = 0" using e0 by (simp add: put_block_def)
    have h2: "heap ?s2 = H @ [None, Some (Cells [Val None])]"
      by (simp add: put_block_def list_update_append)
    from ex readLines_exit_ok [OF e2, of e want lnCnt None "Some (Ptr (Suc (length H)) 0)"]
    have "r = \<lparr>rl_lines = Some (Ptr (Suc (length H)) 0),
              rl_lineCount = (if want then Some lnCnt else None)\<rparr>" "s' = ?s2\<lparr>errno := e\<rparr>"
      by simp_all
    with h2 True show ?thesis
      by (simp add: block_cells_def nth_append line_starts_def)
  next
    case False
    with n have n0: "n \<noteq> 0" by simp
    let ?k = "length (starts_from c 0)"
    from cnt False have lk: "lnCnt = Suc ?k" by (simp add: line_starts_def)
    let ?tab1 = "?tab0[0 := ?mk 0]"
    have st1: "store ?tab0 0 (?mk 0) = Inr ?tab1"
      by (simp add: store_def)
    have m0: "m = map lf_to_nul (take 0 c) @ drop 0 c @ NUL # rest"
      using m by simp
    have cap: "1 + length (starts_from c 0) \<le> length ?tab1"
      using lk by simp
    have sp: "split_lines (length H) m ?tab1 0 1 =
       Inr (map lf_to_nul c @ NUL # rest,
            take 1 ?tab1 @ map ?mk (starts_from c 0) @ drop (1 + ?k) ?tab1,
            1 + ?k)"
      by (rule split_lines_clean [OF nn _ m0 cap]) simp
    let ?tab2 = "take 1 ?tab1 @ map ?mk (starts_from c 0) @ drop (1 + ?k) ?tab1"
    have tab1: "?tab1 = ?mk 0 # replicate (Suc ?k) Indet"
      using lk by simp
    have "Suc ?k - ?k = Suc 0" by simp
    then have "drop (1 + ?k) ?tab1 = replicate (Suc 0) Indet"
      unfolding tab1 by (simp del: replicate_Suc)
    then have dr: "drop (1 + ?k) ?tab1 = [Indet]"
      by simp
    have tk1: "take 1 ?tab1 = [?mk 0]"
      unfolding tab1 by simp
    have t2: "?tab2 = ?mk 0 # map ?mk (starts_from c 0) @ [Indet]"
      unfolding dr tk1 by simp
    let ?tab3 = "map ?mk (line_starts c) @ [Val None]"
    have upd: "(?mk 0 # map ?mk (starts_from c 0) @ [Indet])[Suc ?k := Val None]
              = ?mk 0 # map ?mk (starts_from c 0) @ [Val None]"
      using list_update_length [of "map ?mk (starts_from c 0)" Indet "[]" "Val None"]
      by simp
    have st3: "store ?tab2 (1 + ?k) (Val None) = Inr ?tab3"
      unfolding t2 using False by (simp add: store_def line_starts_def upd del: list_update.simps)
    let ?s2 = "put_block (Suc (length H)) (Cells ?tab3)
                 (put_block (length H) (Chars (map lf_to_nul c @ NUL # rest)) s)"
    from run n0 bc st1 sp st3 have ex: "readLines_exit e want lnCnt (Some (Ptr (length H) 0))
         (Some (Ptr (Suc (length H)) 0)) ?s2 = Inr (r, s')"
      by (simp add: readLines_fill_def)
    have e2: "errno ?s2 = 0" using e0 by (simp add: put_block_def)
    have h2: "heap ?s2 = H @ [Some (Chars (map lf_to_nul c @ NUL # rest)), Some (Cells ?tab3)]"
      using hp by (simp add: put_block_def list_update_append)
    from ex readLines_exit_ok [OF e2, of e want lnCnt "Some (Ptr (length H) 0)" "Some (Ptr (Suc (length H)) 0)"]
    have "r = \<lparr>rl_lines = Some (Ptr (Suc (length H)) 0),
              rl_lineCount = (if want then Some lnCnt else None)\<rparr>" "s' = ?s2\<lparr>errno := e\<rparr>"
      by simp_all
    with h2 show ?thesis
      by (simp add: block_cells_def block_chars_def nth_append)
  qed
qed

section \<open>The claims\<close>

subsection \<open>Strchr against strchr\<close>

lemma takeWhile_first: "x \<notin> set pre \<Longrightarrow> takeWhile (\<lambda>y. y \<noteq> x) (pre @ x # post) = pre"
  by (induction pre) auto

text \<open>
  Claim C9. For every null-terminated string \<open>s\<close> (the bytes \<open>str\<close>, free of NUL, then
  a NUL, at offset \<open>s\<close> of the block \<open>m\<close>) and every character \<open>ch\<close>, \<^verbatim>\<open>Strchr\<close> returns
  what \<^verbatim>\<open>strchr\<close> returns: the first occurrence of \<open>ch\<close> in the string, the terminator
  itself when \<open>ch\<close> is NUL, and a null pointer when \<open>ch\<close> does not occur before the
  terminator. The character reaches \<^verbatim>\<open>Strchr\<close> as the \<^verbatim>\<open>int\<close> \<open>char_val ch\<close>.
\<close>

theorem Strchr_refines_strchr:
  assumes "drop s m = str @ NUL # rest" and "NUL \<notin> set str"
  shows "Strchr m s (char_val ch) = strchr m s (char_val ch) \<and>
         Strchr m s (char_val ch) =
           (if ch \<in> set str then Inr (Some (s + length (takeWhile (\<lambda>x. x \<noteq> ch) str)))
            else if ch = NUL then Inr (Some (s + length str))
            else Inr None)"
proof -
  have scan: "Strchr m s (char_val ch) = strchr_scan (str @ NUL # rest) ch s"
    using assms(1) by (simp add: Strchr_def Strchr_loop_scan)
  show ?thesis
  proof (cases "ch \<in> set str")
    case True
    then obtain pre post where sp: "str = pre @ ch # post" "ch \<notin> set pre"
      by (meson split_list_first)
    then have tw: "takeWhile (\<lambda>x. x \<noteq> ch) str = pre"
      by (simp add: takeWhile_first)
    have "strchr_scan (pre @ ch # (post @ NUL # rest)) ch s = Inr (Some (s + length pre))"
      using sp assms(2) by (intro strchr_scan_found) auto
    with True scan sp tw show ?thesis by (simp add: Strchr_strchr [symmetric])
  next
    case False
    show ?thesis
    proof (cases "ch = NUL")
      case True
      from assms(2) have "strchr_scan (str @ NUL # rest) NUL s = Inr (Some (s + length str))"
        by (intro strchr_scan_found) auto
      with False True scan show ?thesis by (simp add: Strchr_strchr [symmetric])
    next
      case nz: False
      with assms(2) False have "strchr_scan (str @ NUL # rest) ch s = Inr None"
        by (intro strchr_scan_absent) auto
      with False nz scan show ?thesis by (simp add: Strchr_strchr [symmetric])
    qed
  qed
qed

theorem Strchr_refines_strchr_witness:
  "drop 1 (''ab'' @ [CR] @ ''c'' @ [NUL] @ ''x'') = (''b'' @ [CR] @ ''c'') @ NUL # ''x'' \<and>
   NUL \<notin> set (''b'' @ [CR] @ ''c'') \<and>
   Strchr (''ab'' @ [CR] @ ''c'' @ [NUL] @ ''x'') 1 (char_val CR)
     = strchr (''ab'' @ [CR] @ ''c'' @ [NUL] @ ''x'') 1 (char_val CR) \<and>
   Strchr (''ab'' @ [CR] @ ''c'' @ [NUL] @ ''x'') 1 (char_val CR) = Inr (Some 2)"
proof -
  have h1: "drop 1 (''ab'' @ [CR] @ ''c'' @ [NUL] @ ''x'') = (''b'' @ [CR] @ ''c'') @ NUL # ''x''"
    by simp
  have h2: "NUL \<notin> set (''b'' @ [CR] @ ''c'')"
    by (simp add: NUL_def CR_def)
  have h3: "(1::nat) + length (takeWhile (\<lambda>x. x \<noteq> CR) (''b'' @ [CR] @ ''c'')) = 2"
    by (simp add: CR_def)
  have h4: "CR \<in> set (''b'' @ [CR] @ ''c'')"
    by simp
  note w = Strchr_refines_strchr [OF h1 h2, of CR]
  from w have a: "Strchr (''ab'' @ [CR] @ ''c'' @ [NUL] @ ''x'') 1 (char_val CR)
          = strchr (''ab'' @ [CR] @ ''c'' @ [NUL] @ ''x'') 1 (char_val CR)"
    by (rule conjunct1)
  from w have "Strchr (''ab'' @ [CR] @ ''c'' @ [NUL] @ ''x'') 1 (char_val CR) =
         (if CR \<in> set (''b'' @ [CR] @ ''c'')
          then Inr (Some (1 + length (takeWhile (\<lambda>x. x \<noteq> CR) (''b'' @ [CR] @ ''c''))))
          else if CR = NUL then Inr (Some (1 + length (''b'' @ [CR] @ ''c'')))
          else Inr None)"
    by (rule conjunct2)
  then have b: "Strchr (''ab'' @ [CR] @ ''c'' @ [NUL] @ ''x'') 1 (char_val CR) = Inr (Some 2)"
    by (simp only: h3 h4 if_True)
  from h1 h2 a b show ?thesis by (intro conjI)
qed

text \<open>
  The restriction to characters matters: the unrolled tests compare with the \<^verbatim>\<open>int\<close>
  argument itself, so for an \<^verbatim>\<open>int\<close> that is not the value of a \<^verbatim>\<open>char\<close> the two
  functions differ.
\<close>

lemma Strchr_int_outside_char:
  "Strchr (''a'' @ [CHR 0xC8, NUL]) 0 200 = Inr None \<and>
   strchr (''a'' @ [CHR 0xC8, NUL]) 0 200 = Inr (Some 1)"
  by code_simp

subsection \<open>Text mode\<close>

text \<open>
  Claim C1 says that \<^verbatim>\<open>readFile\<close> in text mode removes every carriage return and reports
  the file size minus their number. \<^verbatim>\<open>readFile\<close> looks for the first carriage return with
  \<^verbatim>\<open>Strchr\<close>, which stops at a NUL byte: on the two-byte file NUL, CR nothing is removed
  and the reported length is 2, not 1.
\<close>

theorem readFile_text_keeps_CR_after_NUL:
  "readFile (plain_env [NUL, CR]) (Some ''f'') 1 0 0 True start =
     Inr (\<lparr>rf_buf = Some (Ptr 0 0), rf_length = Some 2\<rparr>,
          \<lparr>errno = 0, heap = [Some (Chars [NUL, CR, NUL])]\<rparr>)"
  by code_simp

text \<open>
  On a file without NUL bytes text mode does what the claim says: the reported length is
  the file size minus the number of carriage returns, and the content is the file without
  them.
\<close>

lemma readFile_text_mode_clean:
  assumes px: "posix E" and fo: "fopen_r E = Inr bytes" and nn: "NUL \<notin> set bytes"
    and run: "readFile E fileName textMode terminate maxSize True s = Inr (r, s')"
    and buf: "rf_buf r = Some (Ptr b off)" and tm: "textMode \<noteq> 0"
  shows "\<exists>m n. block_chars (heap s') b = Inr m \<and> rf_length r = Some n \<and>
           n = length bytes - length (filter (\<lambda>c. c = CR) bytes) \<and>
           take n m = filter (\<lambda>c. c \<noteq> CR) bytes \<and> CR \<notin> set (take n m)"
proof -
  from readFile_success [OF run buf] px tm fo nn obtain b' m n where
    p: "Ptr b off = Ptr b' 0" and len: "rf_length r = Some n"
    and hp: "heap s' = heap s @ [Some (Chars m)] \<and> b' = length (heap s) \<or>
      heap s' = heap s @ [None, Some (Chars m)] \<and> b' = Suc (length (heap s))"
    and nm: "n < length m" and tk: "take n m = filter (\<lambda>c. c \<noteq> CR) bytes"
    by auto
  from hp p have bc: "block_chars (heap s') b = Inr m"
    by (auto simp: block_chars_def nth_append)
  have "length (take n m) = n" using nm by simp
  with tk have n1: "n = length (filter (\<lambda>c. c \<noteq> CR) bytes)" by simp
  have "length (filter (\<lambda>c. c = CR) bytes) + length (filter (\<lambda>c. \<not> c = CR) bytes) = length bytes"
    by (rule sum_length_filter_compl)
  with n1 have n2: "n = length bytes - length (filter (\<lambda>c. c = CR) bytes)" by simp
  have "CR \<notin> set (take n m)" by (simp add: tk)
  with bc len n2 tk show ?thesis by blast
qed

subsection \<open>Terminator\<close>

text \<open>
  Claim C5. For every successful \<^verbatim>\<open>readFile\<close> call with \<^verbatim>\<open>terminate\<close> non-zero, or with
  \<^verbatim>\<open>textMode\<close> non-zero (which forces it), the byte at index \<^verbatim>\<open>*length\<close> of the returned
  buffer is NUL and lies inside the buffer, so it is not one of the \<^verbatim>\<open>*length\<close> bytes of
  content: the length never exceeds the file size and in binary mode it is the file size
  and the content is the file. This holds also after the compaction has shortened the
  content (the witness is such a call).
\<close>

theorem readFile_terminated:
  assumes px: "posix E"
    and run: "readFile E fileName textMode terminate maxSize True s = Inr (r, s')"
    and buf: "rf_buf r = Some (Ptr b off)"
    and tm: "textMode \<noteq> 0 \<or> terminate \<noteq> 0"
  shows "\<exists>bytes m n. fopen_r E = Inr bytes \<and> rf_length r = Some n \<and> off = 0 \<and>
           block_chars (heap s') b = Inr m \<and> n < length m \<and> m ! n = NUL \<and>
           n \<le> length bytes \<and> (textMode = 0 \<longrightarrow> n = length bytes \<and> take n m = bytes)"
proof -
  from readFile_success [OF run buf] px tm obtain bytes b' m n where
    fo: "fopen_r E = Inr bytes" and p: "Ptr b off = Ptr b' 0" and len: "rf_length r = Some n"
    and hp: "heap s' = heap s @ [Some (Chars m)] \<and> b' = length (heap s) \<or>
      heap s' = heap s @ [None, Some (Chars m)] \<and> b' = Suc (length (heap s))"
    and nb: "n \<le> length bytes" and nul: "n < length m \<and> m ! n = NUL"
    and bin: "textMode = 0 \<longrightarrow> n = length bytes \<and> take n m = bytes"
    by auto
  from hp p have "block_chars (heap s') b = Inr m"
    by (auto simp: block_chars_def nth_append)
  with fo p len nb nul bin show ?thesis by auto
qed

theorem readFile_terminated_witness:
  "posix (plain_env (''a'' @ [CR, LF] @ ''b'' @ [CR, LF])) \<and>
   readFile (plain_env (''a'' @ [CR, LF] @ ''b'' @ [CR, LF])) (Some ''f'') 1 0 0 True start =
     Inr (\<lparr>rf_buf = Some (Ptr 1 0), rf_length = Some 4\<rparr>,
          \<lparr>errno = 0, heap = [None, Some (Chars (''a'' @ [LF] @ ''b'' @ [LF, NUL]))]\<rparr>) \<and>
   block_chars [None, Some (Chars (''a'' @ [LF] @ ''b'' @ [LF, NUL]))] 1
     = Inr (''a'' @ [LF] @ ''b'' @ [LF, NUL]) \<and>
   (4::nat) < length (''a'' @ [LF] @ ''b'' @ [LF, NUL]) \<and>
   (''a'' @ [LF] @ ''b'' @ [LF, NUL]) ! 4 = NUL"
proof -
  let ?E = "plain_env (''a'' @ [CR, LF] @ ''b'' @ [CR, LF])"
  let ?s = "\<lparr>errno = 0, heap = [None, Some (Chars (''a'' @ [LF] @ ''b'' @ [LF, NUL]))]\<rparr>"
  have h1: "posix ?E"
    by (simp add: posix_def plain_env_def)
  have h2: "readFile ?E (Some ''f'') 1 0 0 True start =
     Inr (\<lparr>rf_buf = Some (Ptr 1 0), rf_length = Some 4\<rparr>, ?s)"
    by code_simp
  have h3: "rf_buf \<lparr>rf_buf = Some (Ptr 1 0), rf_length = Some 4\<rparr> = Some (Ptr 1 0)"
    by simp
  have h4: "(1::int) \<noteq> 0 \<or> (0::int) \<noteq> 0"
    by simp
  from readFile_terminated [OF h1 h2 h3 h4] obtain m n where
    "rf_length \<lparr>rf_buf = Some (Ptr 1 0), rf_length = Some 4\<rparr> = Some n"
    "block_chars (heap ?s) 1 = Inr m" "n < length m" "m ! n = NUL"
    by blast
  then have "block_chars [None, Some (Chars (''a'' @ [LF] @ ''b'' @ [LF, NUL]))] 1
     = Inr (''a'' @ [LF] @ ''b'' @ [LF, NUL]) \<and>
     (4::nat) < length (''a'' @ [LF] @ ''b'' @ [LF, NUL]) \<and>
     (''a'' @ [LF] @ ''b'' @ [LF, NUL]) ! 4 = NUL"
    by (auto simp: block_chars_def)
  with h1 h2 show ?thesis by blast
qed

subsection \<open>Size limit\<close>

text \<open>
  Claim C6. For every file and every non-zero \<^verbatim>\<open>maxSize\<close> smaller than the file's size
  plus the terminator allowance, \<^verbatim>\<open>readFile\<close> returns \<^verbatim>\<open>NULL\<close> with \<^verbatim>\<open>errno\<close> set to
  \<^verbatim>\<open>EFBIG\<close> and zero in \<^verbatim>\<open>*length\<close>; storage is unchanged, so nothing was allocated.
\<close>

theorem readFile_size_limit:
  assumes "fopen_r E = Inr bytes" and "fseek_r E = None"
    and "maxSize \<noteq> 0" and "maxSize < length bytes + allowance textMode terminate"
  shows "readFile E (Some name) textMode terminate maxSize want s =
           Inr (\<lparr>rf_buf = None, rf_length = (if want then Some 0 else None)\<rparr>,
                s\<lparr>errno := EFBIG\<rparr>)"
  using assms
  by (simp add: readFile_def fopen_def fseek_end_def ftell_def Let_def allowance_alt
      readFile_exit_def EFBIG_def)

theorem readFile_size_limit_witness:
  "fopen_r (plain_env ''abc'') = Inr ''abc'' \<and> fseek_r (plain_env ''abc'') = None \<and>
   (3::nat) \<noteq> 0 \<and> 3 < length ''abc'' + allowance 0 1 \<and>
   readFile (plain_env ''abc'') (Some ''f'') 0 1 3 True start =
     Inr (\<lparr>rf_buf = None, rf_length = Some 0\<rparr>, \<lparr>errno = EFBIG, heap = []\<rparr>)"
proof -
  have h: "fopen_r (plain_env ''abc'') = Inr ''abc''" "fseek_r (plain_env ''abc'') = None"
    "(3::nat) \<noteq> 0" "3 < length ''abc'' + allowance 0 1"
    by (simp_all add: plain_env_def allowance_def)
  from readFile_size_limit [OF h, of "''f''" True start] h show ?thesis
    by (simp add: start_def)
qed

subsection \<open>Error paths\<close>

text \<open>
  Claim C7. On every error path (invalid file name, open failure, seek failure, size
  limit, allocation failure, read error) \<^verbatim>\<open>readFile\<close> returns \<^verbatim>\<open>NULL\<close>, stores 0 in
  \<^verbatim>\<open>*length\<close> when \<^verbatim>\<open>length\<close> is not null, and leaves \<^verbatim>\<open>errno\<close> non-zero; no block
  allocated by the call is live afterwards (storage is as before, or has one more block
  that has been freed).
\<close>

theorem readFile_error_paths:
  assumes px: "posix E" and err: "error_path E fileName textMode terminate maxSize s"
  shows "\<exists>s'. readFile E fileName textMode terminate maxSize want s =
            Inr (\<lparr>rf_buf = None, rf_length = (if want then Some 0 else None)\<rparr>, s') \<and>
          errno s' \<noteq> 0 \<and> (heap s' = heap s \<or> heap s' = heap s @ [None])"
proof (cases fileName)
  case None
  then show ?thesis by (simp add: readFile_def readFile_exit_def EINVAL_def)
next
  case (Some name)
  show ?thesis
  proof (cases "fopen_r E")
    case (Inl ec)
    with px have "ec \<noteq> 0" by (simp add: posix_def)
    with Some Inl show ?thesis by (simp add: readFile_def fopen_def readFile_exit_def)
  next
    case (Inr bytes)
    show ?thesis
    proof (cases "fseek_r E")
      case (Some ec)
      with px have "ec \<noteq> 0" by (simp add: posix_def)
      with \<open>fileName = Some name\<close> Inr Some show ?thesis
        by (simp add: readFile_def fopen_def fseek_end_def readFile_exit_def)
    next
      case None
      let ?t = "allowance textMode terminate"
      show ?thesis
      proof (cases "maxSize = 0 \<or> length bytes + ?t \<le> maxSize")
        case False
        with \<open>fileName = Some name\<close> Inr None show ?thesis
          by (simp add: readFile_def fopen_def fseek_end_def ftell_def Let_def allowance_alt
              readFile_exit_def EFBIG_def)
      next
        case fits: True
        show ?thesis
        proof (cases "malloc_r E (length (heap s)) (length bytes + ?t)")
          case (Some ec)
          with px have "ec \<noteq> 0" by (simp add: posix_def)
          with \<open>fileName = Some name\<close> Inr None fits Some show ?thesis
            by (simp add: readFile_def fopen_def fseek_end_def ftell_def Let_def allowance_alt
                malloc_def readFile_exit_def)
        next
          case mok: None
          from err \<open>fileName = Some name\<close> Inr None fits mok
          obtain k ec where fr: "fread_r E = Some (k, ec)" and ne: "bytes \<noteq> []"
            by (auto simp: error_path_def)
          with px have ec: "ec \<noteq> 0" by (simp add: posix_def)
          let ?m = "take (min k (length bytes)) bytes
                      @ drop (min k (length bytes)) (map (junk E) [0..<length bytes + ?t])"
          have filled: "readFile_filled E bytes (length bytes) textMode
                (if textMode \<noteq> 0 then TRUE else terminate) ?t (length (heap s))
                (s\<lparr>errno := 0, heap := heap s @ [Some (fresh_chars E (length bytes + ?t))]\<rparr>)
              = Inr (length (heap s), min k (length bytes),
                     s\<lparr>errno := ec, heap := heap s @ [Some (Chars ?m)]\<rparr>)"
            using fr ne
            by (simp add: readFile_filled_def fresh_chars_def fread_def put_block_def Let_def)
          from \<open>fileName = Some name\<close> Inr None fits mok ec show ?thesis
            by (simp add: readFile_def fopen_def fseek_end_def ftell_def Let_def allowance_alt
                malloc_def filled readFile_exit_def free_def)
        qed
      qed
    qed
  qed
qed

theorem readFile_error_paths_witness:
  "posix read_error_env \<and> error_path read_error_env (Some ''f'') 1 0 0 start \<and>
   readFile read_error_env (Some ''f'') 1 0 0 True start =
     Inr (\<lparr>rf_buf = None, rf_length = Some 0\<rparr>, \<lparr>errno = 5, heap = [None]\<rparr>)"
proof -
  have h: "posix read_error_env" "error_path read_error_env (Some ''f'') 1 0 0 start"
    by (simp_all add: posix_def error_path_def read_error_env_def plain_env_def)
  from readFile_error_paths [OF h, of True] obtain s' where
    "readFile read_error_env (Some ''f'') 1 0 0 True start =
       Inr (\<lparr>rf_buf = None, rf_length = Some 0\<rparr>, s')" by auto
  moreover have "readFile read_error_env (Some ''f'') 1 0 0 True start =
     Inr (\<lparr>rf_buf = None, rf_length = Some 0\<rparr>, \<lparr>errno = 5, heap = [None]\<rparr>)"
    by code_simp
  ultimately show ?thesis using h by simp
qed

text \<open>Off the error paths \<^verbatim>\<open>readFile\<close> returns a buffer and restores \<^verbatim>\<open>errno\<close>.\<close>

lemma readFile_without_error:
  assumes ne: "\<not> error_path E fileName textMode terminate maxSize s"
  shows "\<exists>r s'. readFile E fileName textMode terminate maxSize want s = Inr (r, s') \<and>
           rf_buf r \<noteq> None \<and> errno s' = errno s"
proof -
  let ?t = "allowance textMode terminate"
  let ?tforced = "if textMode \<noteq> 0 then TRUE else terminate"
  from ne obtain name where fn: "fileName = Some name"
    by (cases fileName) (auto simp: error_path_def)
  from ne fn obtain bytes where fo: "fopen_r E = Inr bytes"
    by (cases "fopen_r E") (auto simp: error_path_def)
  from ne fn fo have fs: "fseek_r E = None"
    and fits: "maxSize = 0 \<or> length bytes + ?t \<le> maxSize"
    and mok: "malloc_r E (length (heap s)) (length bytes + ?t) = None"
    by (simp_all add: error_path_def) auto
  have rd: "fread_r E = None \<or> bytes = []"
  proof (cases "fread_r E")
    case None
    then show ?thesis by simp
  next
    case (Some x)
    with ne fn fo have "bytes = []" by (simp add: error_path_def)
    then show ?thesis by simp
  qed
  let ?s1 = "s\<lparr>errno := 0, heap := heap s @ [Some (fresh_chars E (length bytes + ?t))]\<rparr>"
  have hp: "heap ?s1 = heap s @ [Some (Chars (map (junk E) [0..<length bytes + ?t]))]"
    by (simp add: fresh_chars_def)
  have tt: "?t = (if ?tforced \<noteq> 0 then 1 else 0)" "textMode \<noteq> 0 \<longrightarrow> ?tforced \<noteq> 0"
    by (simp_all add: allowance_def TRUE_def)
  have len: "length (map (junk E) [0..<length bytes + ?t]) = length bytes + ?t"
    by simp
  from readFile_filled_total [OF hp len tt, of E]
  obtain b n s2 where fi: "readFile_filled E bytes (length bytes) textMode ?tforced ?t
      (length (heap s)) ?s1 = Inr (b, n, s2)"
    by blast
  have "errno ?s1 = 0" by simp
  from readFile_filled_result [OF fi hp len this tt] rd have "errno s2 = 0"
    by blast
  with fn fo fs fits mok fi show ?thesis
    by (simp add: readFile_def fopen_def fseek_end_def ftell_def Let_def allowance_alt
        malloc_def readFile_exit_def)
qed

subsection \<open>Empty files\<close>

text \<open>
  Claim C8. For every zero-length file that can be opened, and whatever \<^verbatim>\<open>textMode\<close>,
  \<^verbatim>\<open>terminate\<close> and \<^verbatim>\<open>maxSize\<close> are, \<^verbatim>\<open>readFile\<close> succeeds when \<^verbatim>\<open>malloc\<close> returns a
  block for the request (of zero bytes when neither \<^verbatim>\<open>textMode\<close> nor \<^verbatim>\<open>terminate\<close> is
  set): it returns a non-null buffer, reports length 0, and the buffer can be freed.
\<close>

theorem readFile_empty_file:
  assumes "fopen_r E = Inr []" and "fseek_r E = None"
    and "malloc_r E (length (heap s)) (allowance textMode terminate) = None"
  shows "readFile E (Some name) textMode terminate maxSize want s =
           Inr (\<lparr>rf_buf = Some (Ptr (length (heap s)) 0),
                 rf_length = (if want then Some 0 else None)\<rparr>,
                s\<lparr>heap := heap s @ [Some (Chars (replicate (allowance textMode terminate) NUL))]\<rparr>) \<and>
         free (Some (Ptr (length (heap s)) 0))
              (s\<lparr>heap := heap s @ [Some (Chars (replicate (allowance textMode terminate) NUL))]\<rparr>)
           = Inr (s\<lparr>heap := heap s @ [None]\<rparr>)"
proof -
  let ?t = "allowance textMode terminate"
  let ?tforced = "if textMode \<noteq> 0 then TRUE else terminate"
  have fits: "maxSize = 0 \<or> ?t \<le> maxSize"
    by (auto simp: allowance_def)
  have scan: "Strchr [NUL] 0 (char_val CR) = Inr None"
    using chars_distinct by (simp add: Strchr_def to_char_val)
  have tx: "readFile_text textMode ?tforced (map (junk E) [0..<?t]) 0
                = Inr (replicate ?t NUL, 0)"
    by (auto simp: readFile_text_def allowance_def TRUE_def store_def scan)
  have filled: "readFile_filled E [] 0 textMode ?tforced ?t (length (heap s))
          (s\<lparr>errno := 0, heap := heap s @ [Some (fresh_chars E ?t)]\<rparr>)
        = Inr (length (heap s), 0,
               s\<lparr>errno := 0, heap := heap s @ [Some (Chars (replicate ?t NUL))]\<rparr>)"
    by (simp add: readFile_filled_def fresh_chars_def fread_def tx readFile_shrink_def
        put_block_def)
  have "readFile E (Some name) textMode terminate maxSize want s =
           Inr (\<lparr>rf_buf = Some (Ptr (length (heap s)) 0),
                 rf_length = (if want then Some 0 else None)\<rparr>,
                s\<lparr>heap := heap s @ [Some (Chars (replicate ?t NUL))]\<rparr>)"
    using assms fits
    by (simp add: readFile_def fopen_def fseek_end_def ftell_def Let_def allowance_alt
        malloc_def filled readFile_exit_def)
  moreover have "free (Some (Ptr (length (heap s)) 0))
              (s\<lparr>heap := heap s @ [Some (Chars (replicate ?t NUL))]\<rparr>)
           = Inr (s\<lparr>heap := heap s @ [None]\<rparr>)"
    by (simp add: free_def)
  ultimately show ?thesis by simp
qed

theorem readFile_empty_file_witness:
  "fopen_r (plain_env []) = Inr [] \<and> fseek_r (plain_env []) = None \<and>
   malloc_r (plain_env []) (length (heap start)) (allowance 0 0) = None \<and>
   readFile (plain_env []) (Some ''f'') 0 0 0 True start =
     Inr (\<lparr>rf_buf = Some (Ptr 0 0), rf_length = Some 0\<rparr>, \<lparr>errno = 0, heap = [Some (Chars [])]\<rparr>) \<and>
   free (Some (Ptr 0 0)) \<lparr>errno = 0, heap = [Some (Chars [])]\<rparr> = Inr \<lparr>errno = 0, heap = [None]\<rparr>"
proof -
  have h: "fopen_r (plain_env []) = Inr []" "fseek_r (plain_env []) = None"
    "malloc_r (plain_env []) (length (heap start)) (allowance 0 0) = None"
    by (simp_all add: plain_env_def)
  from readFile_empty_file [OF h, of "''f''" 0 True] h show ?thesis
    by (simp add: start_def allowance_def)
qed

subsection \<open>Line count\<close>

text \<open>
  Claim C2 says that for every file \<^verbatim>\<open>readLines\<close> reports the number of line feeds in
  the content, plus one when the content is not empty and does not end in a line feed. The
  counting loop searches with \<^verbatim>\<open>Strchr\<close>, which stops at a NUL byte, while the extra
  line is decided at \<^verbatim>\<open>buf[length-1]\<close>: on the three-byte file NUL, LF, b the call
  succeeds and reports 1 line, where the claim gives 2.
\<close>

theorem readLines_count_with_NUL:
  "readLines (plain_env ([NUL, LF] @ ''b'')) (Some ''f'') 0 True start =
     Inr (\<lparr>rl_lines = Some (Ptr 1 0), rl_lineCount = Some 1\<rparr>,
          \<lparr>errno = 0, heap = [Some (Chars ([NUL, LF] @ ''b'' @ [NUL])),
             Some (Cells [Val (Some (Ptr 0 0)), Val None])]\<rparr>) \<and>
   claimed_lineCount (filter (\<lambda>c. c \<noteq> CR) ([NUL, LF] @ ''b'')) = 2"
  by code_simp

text \<open>
  On a file without NUL bytes the count is the claimed one: a call of \<^verbatim>\<open>readLines\<close> that
  returns a table reports the number of line feeds in the content without its carriage
  returns, plus one when that content is not empty and does not end in a line feed.
\<close>

lemma readLines_count:
  assumes px: "posix E" and fo: "fopen_r E = Inr bytes" and nn: "NUL \<notin> set bytes"
    and run: "readLines E fileName maxSize want s = Inr (r, s')"
    and lines: "rl_lines r \<noteq> None"
  shows "rl_lineCount r =
           (if want then Some (claimed_lineCount (filter (\<lambda>c. c \<noteq> CR) bytes)) else None)"
proof -
  let ?c = "filter (\<lambda>c. c \<noteq> CR) bytes"
  from lines obtain p where p: "rl_lines r = Some p" by auto
  from readLines_success [OF run p] px fo nn obtain m n lnCnt where
    cnt: "rl_lineCount r = (if want then Some lnCnt else None)"
    and cl: "count_lines m 0 (if n \<noteq> 0 \<and> m ! (n - 1) \<noteq> LF then 1 else 0) = Inr lnCnt"
    and nm: "n < length m" and nul: "m ! n = NUL" and tk: "take n m = ?c"
    by auto
  have n: "n = length ?c" using tk nm by (metis length_take min.absorb2 less_imp_le_nat)
  have m: "m = ?c @ NUL # drop (Suc n) m"
    using tk nm nul by (metis id_take_nth_drop)
  have cn: "NUL \<notin> set ?c" using nn by simp
  have lastc: "n \<noteq> 0 \<Longrightarrow> m ! (n - 1) = last ?c"
  proof -
    assume "n \<noteq> 0"
    then have "?c \<noteq> []" using n by auto
    then have "last ?c = ?c ! (n - 1)" using n by (simp add: last_conv_nth)
    also have "\<dots> = take n m ! (n - 1)" using tk by simp
    also have "\<dots> = m ! (n - 1)" using \<open>n \<noteq> 0\<close> by simp
    finally show ?thesis by simp
  qed
  have k0: "(if n \<noteq> 0 \<and> m ! (n - 1) \<noteq> LF then 1 else 0) =
            (if ?c \<noteq> [] \<and> last ?c \<noteq> LF then 1 else (0::nat))"
    using lastc n by auto
  have "count_lines (?c @ NUL # drop (Suc n) m) 0 (if ?c \<noteq> [] \<and> last ?c \<noteq> LF then 1 else 0)
      = Inr ((if ?c \<noteq> [] \<and> last ?c \<noteq> LF then 1 else 0) + length (filter (\<lambda>x. x = LF) (drop 0 ?c)))"
    by (rule count_lines_clean [OF cn]) simp
  with cl m k0 have "lnCnt = claimed_lineCount ?c"
    by (simp add: claimed_lineCount_def)
  with cnt show ?thesis by simp
qed

lemma readLines_count_example:
  "posix (plain_env (''a'' @ [CR, LF, CR, LF] @ ''b'')) \<and>
   fopen_r (plain_env (''a'' @ [CR, LF, CR, LF] @ ''b'')) = Inr (''a'' @ [CR, LF, CR, LF] @ ''b'') \<and>
   NUL \<notin> set (''a'' @ [CR, LF, CR, LF] @ ''b'') \<and>
   readLines (plain_env (''a'' @ [CR, LF, CR, LF] @ ''b'')) (Some ''f'') 0 True start =
     Inr (\<lparr>rl_lines = Some (Ptr 2 0), rl_lineCount = Some 3\<rparr>,
          \<lparr>errno = 0, heap = [None, Some (Chars (''a'' @ [NUL, NUL] @ ''b'' @ [NUL])),
             Some (Cells [Val (Some (Ptr 1 0)), Val (Some (Ptr 1 2)), Val (Some (Ptr 1 3)),
               Val None])]\<rparr>) \<and>
   claimed_lineCount (filter (\<lambda>c. c \<noteq> CR) (''a'' @ [CR, LF, CR, LF] @ ''b'')) = 3"
proof -
  let ?E = "plain_env (''a'' @ [CR, LF, CR, LF] @ ''b'')"
  let ?r = "\<lparr>rl_lines = Some (Ptr 2 0), rl_lineCount = Some 3\<rparr>"
  have h1: "posix ?E" by (simp add: posix_def plain_env_def)
  have h2: "fopen_r ?E = Inr (''a'' @ [CR, LF, CR, LF] @ ''b'')" by (simp add: plain_env_def)
  have h3: "NUL \<notin> set (''a'' @ [CR, LF, CR, LF] @ ''b'')" by (simp add: NUL_def CR_def LF_def)
  have h4: "readLines ?E (Some ''f'') 0 True start =
     Inr (?r, \<lparr>errno = 0, heap = [None, Some (Chars (''a'' @ [NUL, NUL] @ ''b'' @ [NUL])),
             Some (Cells [Val (Some (Ptr 1 0)), Val (Some (Ptr 1 2)), Val (Some (Ptr 1 3)),
               Val None])]\<rparr>)"
    by code_simp
  have h5: "rl_lines ?r \<noteq> None" by simp
  from readLines_count [OF h1 h2 h3 h4 h5]
  have "claimed_lineCount (filter (\<lambda>c. c \<noteq> CR) (''a'' @ [CR, LF, CR, LF] @ ''b'')) = 3"
    by simp
  with h1 h2 h3 h4 show ?thesis by blast
qed

subsection \<open>Line table\<close>

text \<open>
  Claim C3 says that a successful \<^verbatim>\<open>readLines\<close> returns exactly \<^verbatim>\<open>*lineCount\<close> non-null
  line pointers followed by the \<^verbatim>\<open>NULL\<close> sentinel, in a table of \<^verbatim>\<open>lineCount + 1\<close>
  entries. The count and the entries written disagree when the file holds a NUL byte.
  On the file a, LF, NUL, b the call succeeds with \<^verbatim>\<open>*lineCount\<close> 2 and a table of
  three entries: one line pointer, the sentinel, and an entry never written. On the file
  NUL, LF the count is 0, the table has one entry, and the code writes the buffer to entry
  0 and the sentinel to entry 1, outside the table.
\<close>

theorem readLines_table_with_NUL:
  "readLines (plain_env (''a'' @ [LF, NUL] @ ''b'')) (Some ''f'') 0 True start =
     Inr (\<lparr>rl_lines = Some (Ptr 1 0), rl_lineCount = Some 2\<rparr>,
          \<lparr>errno = 0, heap = [Some (Chars (''a'' @ [NUL, NUL] @ ''b'' @ [NUL])),
             Some (Cells [Val (Some (Ptr 0 0)), Val None, Indet])]\<rparr>) \<and>
   readLines (plain_env [NUL, LF]) (Some ''f'') 0 True start = Inl OutOfBounds \<and>
   count_lines [NUL, LF, NUL] 0 0 = Inr 0 \<and>
   fresh_cells ((0 + 1) * sizeof_ptr) = Cells [Indet] \<and>
   split_lines 0 [NUL, LF, NUL] [Val (Some (Ptr 0 0))] 0 1
     = Inr ([NUL, LF, NUL], [Val (Some (Ptr 0 0))], 1) \<and>
   store [Val (Some (Ptr 0 0))] 1 (Val None) = Inl OutOfBounds"
  by code_simp

text \<open>
  On a file without NUL bytes the table is the claimed one: a call of \<^verbatim>\<open>readLines\<close>
  that returns a table returns the start of a block that holds one pointer into the
  buffer for each line, at increasing offsets, and then the \<^verbatim>\<open>NULL\<close> sentinel, nothing
  else; the count reported is the number of these pointers; in the buffer every line feed
  has become a terminator.
\<close>

lemma readLines_table_clean:
  assumes px: "posix E" and fo: "fopen_r E = Inr bytes" and nn: "NUL \<notin> set bytes"
    and run: "readLines E fileName maxSize want s = Inr (r, s')"
    and lines: "rl_lines r = Some p"
  shows "\<exists>tb bb. p = Ptr tb 0 \<and>
     block_cells (heap s') tb
       = Inr (map (\<lambda>k. Val (Some (Ptr bb k))) (line_starts (filter (\<lambda>c. c \<noteq> CR) bytes))
              @ [Val None]) \<and>
     rl_lineCount r
       = (if want then Some (length (line_starts (filter (\<lambda>c. c \<noteq> CR) bytes))) else None) \<and>
     (filter (\<lambda>c. c \<noteq> CR) bytes \<noteq> [] \<longrightarrow>
        (\<exists>rest. block_chars (heap s') bb
           = Inr (map lf_to_nul (filter (\<lambda>c. c \<noteq> CR) bytes) @ NUL # rest)))"
proof -
  let ?c = "filter (\<lambda>c. c \<noteq> CR) bytes"
  from readLines_to_split [OF run lines] obtain r1 s1 q n where
    rf: "readFile E fileName 1 1 maxSize True (s\<lparr>errno := 0\<rparr>) = Inr (r1, s1)"
    and q: "rf_buf r1 = Some q" and len: "rf_length r1 = Some n"
    and sp: "\<forall>b. q = Ptr b 0 \<longrightarrow> readLines_split E (errno s) want maxSize b n s1 = Inr (r, s')"
    by blast
  from readFile_success [OF rf q] px fo nn len obtain b m where
    qb: "q = Ptr b 0" and e1: "errno s1 = 0"
    and hp: "heap s1 = heap s @ [Some (Chars m)] \<and> b = length (heap s) \<or>
      heap s1 = heap s @ [None, Some (Chars m)] \<and> b = Suc (length (heap s))"
    and nm: "n < length m" and nul: "m ! n = NUL" and tk: "take n m = ?c"
    by auto
  define H where "H = (if b = length (heap s) then heap s else heap s @ [None])"
  from hp have H: "heap s1 = H @ [Some (Chars m)]" "b = length H"
    by (auto simp: H_def)
  have n: "n = length ?c" using tk nm by (metis length_take min.absorb2 less_imp_le_nat)
  have m: "m = ?c @ NUL # drop (Suc n) m"
    using tk nm nul by (metis id_take_nth_drop)
  have cn: "NUL \<notin> set ?c" using nn by simp
  from sp qb H(2) have sp': "readLines_split E (errno s) want maxSize (length H) n s1 = Inr (r, s')"
    by simp
  from readLines_split_to_fill [OF sp' H(1) lines] obtain lnCnt where
    cl: "count_lines m 0 (if n \<noteq> 0 \<and> m ! (n - 1) \<noteq> LF then 1 else 0) = Inr lnCnt"
    and fill: "readLines_fill (errno s) want lnCnt (length H) m n (Suc (length H))
       (s1\<lparr>heap := H @ [Some (Chars m), Some (Cells (replicate (lnCnt + 1) Indet))]\<rparr>) = Inr (r, s')"
    by blast
  have lastc: "n \<noteq> 0 \<Longrightarrow> m ! (n - 1) = last ?c"
  proof -
    assume "n \<noteq> 0"
    then have "?c \<noteq> []" using n by auto
    then have "last ?c = ?c ! (n - 1)" using n by (simp add: last_conv_nth)
    also have "\<dots> = take n m ! (n - 1)" using tk by simp
    also have "\<dots> = m ! (n - 1)" using \<open>n \<noteq> 0\<close> by simp
    finally show ?thesis by simp
  qed
  have k0: "(if n \<noteq> 0 \<and> m ! (n - 1) \<noteq> LF then 1 else 0) =
            (if ?c \<noteq> [] \<and> last ?c \<noteq> LF then 1 else (0::nat))"
    using lastc n by auto
  have "count_lines (?c @ NUL # drop (Suc n) m) 0 (if ?c \<noteq> [] \<and> last ?c \<noteq> LF then 1 else 0)
      = Inr ((if ?c \<noteq> [] \<and> last ?c \<noteq> LF then 1 else 0) + length (filter (\<lambda>x. x = LF) (drop 0 ?c)))"
    by (rule count_lines_clean [OF cn]) simp
  with cl m k0 have "lnCnt = claimed_lineCount ?c"
    by (simp add: claimed_lineCount_def)
  then have cnt: "lnCnt = length (line_starts ?c)"
    by (simp add: length_line_starts)
  let ?s2 = "s1\<lparr>heap := H @ [Some (Chars m), Some (Cells (replicate (lnCnt + 1) Indet))]\<rparr>"
  have e2: "errno ?s2 = 0" using e1 by simp
  have h2: "heap ?s2 = H @ [Some (Chars m), Some (Cells (replicate (lnCnt + 1) Indet))]"
    by simp
  from readLines_fill_clean [OF fill e2 h2 m n cn cnt] lines cnt
  have "p = Ptr (Suc (length H)) 0"
    and "block_cells (heap s') (Suc (length H))
       = Inr (map (\<lambda>k. Val (Some (Ptr (length H) k))) (line_starts ?c) @ [Val None])"
    and "rl_lineCount r = (if want then Some (length (line_starts ?c)) else None)"
    and "?c \<noteq> [] \<longrightarrow> block_chars (heap s') (length H)
           = Inr (map lf_to_nul ?c @ NUL # drop (Suc n) m)"
    by simp_all
  then show ?thesis by blast
qed

lemma line_starts_in_file_order:
  "sorted_wrt (<) (line_starts c) \<and> length (line_starts c) = claimed_lineCount c"
  by (simp add: sorted_line_starts length_line_starts)

subsection \<open>Releasing the table\<close>

text \<open>
  Claim C4. Every table \<^verbatim>\<open>readLines\<close> returns starts its own block and is not empty.
  When the table is a zero-line table (the reported count is 0, or the content
  \<^verbatim>\<open>readFile\<close> delivered is empty), its first entry is \<^verbatim>\<open>NULL\<close> and every block the call
  allocated, the table apart, has been freed inside \<^verbatim>\<open>readLines\<close>. One \<^verbatim>\<open>freeLines\<close> on any returned table succeeds, so nothing is freed
  twice, and leaves no block of the call live and the older blocks untouched.
  \<^verbatim>\<open>freeLines(NULL)\<close> changes nothing.
\<close>

theorem freeLines_releases:
  assumes run: "readLines E fileName maxSize want s = Inr (r, s')"
    and lines: "rl_lines r = Some p"
  shows "\<exists>tb tab. p = Ptr tb 0 \<and> block_cells (heap s') tb = Inr tab \<and> tab \<noteq> [] \<and>
           (rl_lineCount r = Some 0 \<or>
            (\<exists>r1 s1. readFile E fileName 1 1 maxSize True (s\<lparr>errno := 0\<rparr>) = Inr (r1, s1) \<and>
               rf_length r1 = Some 0) \<longrightarrow>
              tab ! 0 = Val None \<and>
              (\<forall>i. length (heap s) \<le> i \<and> i < length (heap s') \<and> i \<noteq> tb \<longrightarrow> heap s' ! i = None)) \<and>
           (\<exists>s''. freeLines (Some p) s' = Inr s'' \<and> errno s'' = errno s' \<and>
              take (length (heap s)) (heap s'') = heap s \<and>
              (\<forall>i. length (heap s) \<le> i \<and> i < length (heap s'') \<longrightarrow> heap s'' ! i = None)) \<and>
           freeLines None s' = Inr s'"
proof -
  from readLines_success [OF run lines] obtain H bytes m n lnCnt tab r1 s1 where
    rf: "readFile E fileName 1 1 maxSize True (s\<lparr>errno := 0\<rparr>) = Inr (r1, s1)"
    and "fopen_r E = Inr bytes" and rn: "rf_length r1 = Some n" "rf_buf r1 = Some (Ptr (length H) 0)"
    "heap s1 = H @ [Some (Chars m)]"
    and H: "H = heap s \<or> H = heap s @ [None]" and p: "p = Ptr (Suc (length H)) 0"
    and "errno s' = errno s"
    and cnt: "rl_lineCount r = (if want then Some lnCnt else None)"
    and "n \<noteq> 0 \<longrightarrow> n - 1 < length m"
    and "count_lines m 0 (if n \<noteq> 0 \<and> m ! (n - 1) \<noteq> LF then 1 else 0) = Inr lnCnt"
    and lt: "length tab = lnCnt + 1"
    and hp: "n \<noteq> 0 \<and> (\<exists>m'. heap s' = H @ [Some (Chars m'), Some (Cells tab)]) \<and>
        tab ! 0 = Val (Some (Ptr (length H) 0)) \<and> 2 \<le> length tab
      \<or> n = 0 \<and> heap s' = H @ [None, Some (Cells tab)] \<and> tab ! 0 = Val None"
    by (elim exE conjE) (rule that, assumption+)
  from lt have tne: "tab \<noteq> []" by auto
  have bc: "block_cells (heap s') (Suc (length H)) = Inr tab"
    using hp by (auto simp: block_cells_def nth_append)
  have zero: "rl_lineCount r = Some 0 \<or>
      (\<exists>r1 s1. readFile E fileName 1 1 maxSize True (s\<lparr>errno := 0\<rparr>) = Inr (r1, s1) \<and>
         rf_length r1 = Some 0) \<longrightarrow> tab ! 0 = Val None \<and>
      (\<forall>i. length (heap s) \<le> i \<and> i < length (heap s') \<and> i \<noteq> Suc (length H) \<longrightarrow> heap s' ! i = None)"
  proof
    assume "rl_lineCount r = Some 0 \<or>
      (\<exists>r1 s1. readFile E fileName 1 1 maxSize True (s\<lparr>errno := 0\<rparr>) = Inr (r1, s1) \<and>
         rf_length r1 = Some 0)"
    then have "lnCnt = 0 \<or> n = 0"
    proof
      assume "rl_lineCount r = Some 0"
      with cnt show ?thesis by (auto split: if_splits)
    next
      assume "\<exists>r1 s1. readFile E fileName 1 1 maxSize True (s\<lparr>errno := 0\<rparr>) = Inr (r1, s1) \<and>
         rf_length r1 = Some 0"
      with rf rn show ?thesis by auto
    qed
    with lt hp have e: "heap s' = H @ [None, Some (Cells tab)]" "tab ! 0 = Val None" by auto
    have a: "\<forall>i. length (heap s) \<le> i \<and> i < length (heap s') \<and> i \<noteq> Suc (length H) \<longrightarrow> heap s' ! i = None"
      unfolding e(1) using new_blocks_freed1 [OF H] by blast
    show "tab ! 0 = Val None \<and>
      (\<forall>i. length (heap s) \<le> i \<and> i < length (heap s') \<and> i \<noteq> Suc (length H) \<longrightarrow> heap s' ! i = None)"
      by (rule conjI [OF e(2) a])
  qed
  have ld: "load tab 0 = Inr (tab ! 0)" using tne by (simp add: load_def)
  have fl: "freeLines (Some p) s' = Inr (s'\<lparr>heap := H @ [None, None]\<rparr>)"
    using hp
  proof
    assume a: "n \<noteq> 0 \<and> (\<exists>m'. heap s' = H @ [Some (Chars m'), Some (Cells tab)]) \<and>
      tab ! 0 = Val (Some (Ptr (length H) 0)) \<and> 2 \<le> length tab"
    then obtain m' where h: "heap s' = H @ [Some (Chars m'), Some (Cells tab)]" by blast
    from a have t0: "tab ! 0 = Val (Some (Ptr (length H) 0))" by simp
    have f1: "free (Some (Ptr (length H) 0)) s' = Inr (s'\<lparr>heap := H @ [None, Some (Cells tab)]\<rparr>)"
      using h by (simp add: free_def nth_append list_update_append)
    have f2: "free (Some (Ptr (Suc (length H)) 0)) (s'\<lparr>heap := H @ [None, Some (Cells tab)]\<rparr>)
        = Inr (s'\<lparr>heap := H @ [None, None]\<rparr>)"
      by (simp add: free_def nth_append list_update_append)
    show ?thesis by (simp add: freeLines_def p bc ld t0 f1 f2)
  next
    assume a: "n = 0 \<and> heap s' = H @ [None, Some (Cells tab)] \<and> tab ! 0 = Val None"
    then have t0: "tab ! 0 = Val None" by simp
    have f2: "free (Some (Ptr (Suc (length H)) 0)) s' = Inr (s'\<lparr>heap := H @ [None, None]\<rparr>)"
      using a by (simp add: free_def nth_append list_update_append)
    show ?thesis by (simp add: freeLines_def p bc ld t0 f2)
  qed
  have tk: "take (length (heap s)) (H @ [None, None]) = heap s"
    using H by auto
  have all: "\<forall>i. length (heap s) \<le> i \<and> i < length (H @ [None, None]) \<longrightarrow> (H @ [None, None]) ! i = None"
    using new_blocks_freed2 [OF H] by blast
  have fin: "\<exists>s''. freeLines (Some p) s' = Inr s'' \<and> errno s'' = errno s' \<and>
              take (length (heap s)) (heap s'') = heap s \<and>
              (\<forall>i. length (heap s) \<le> i \<and> i < length (heap s'') \<longrightarrow> heap s'' ! i = None)"
  proof (intro exI conjI)
    show "freeLines (Some p) s' = Inr (s'\<lparr>heap := H @ [None, None]\<rparr>)" by (rule fl)
    show "errno (s'\<lparr>heap := H @ [None, None]\<rparr>) = errno s'" by simp
    show "take (length (heap s)) (heap (s'\<lparr>heap := H @ [None, None]\<rparr>)) = heap s"
      using tk by simp
    show "\<forall>i. length (heap s) \<le> i \<and> i < length (heap (s'\<lparr>heap := H @ [None, None]\<rparr>)) \<longrightarrow>
        heap (s'\<lparr>heap := H @ [None, None]\<rparr>) ! i = None"
      using all by simp
  qed
  have nul: "freeLines None s' = Inr s'"
    by (simp add: freeLines_def)
  show ?thesis
    by (rule exI [of _ "Suc (length H)"], rule exI [of _ tab], intro conjI)
       (rule p bc tne zero fin nul)+
qed

theorem freeLines_releases_witness:
  "readLines (plain_env [CR, CR]) (Some ''f'') 0 True start =
     Inr (\<lparr>rl_lines = Some (Ptr 2 0), rl_lineCount = Some 0\<rparr>,
          \<lparr>errno = 0, heap = [None, None, Some (Cells [Val None])]\<rparr>) \<and>
   block_cells [None, None, Some (Cells [Val None])] 2 = Inr [Val None] \<and>
   freeLines (Some (Ptr 2 0)) \<lparr>errno = 0, heap = [None, None, Some (Cells [Val None])]\<rparr> =
     Inr \<lparr>errno = 0, heap = [None, None, None]\<rparr> \<and>
   freeLines None \<lparr>errno = 0, heap = [None, None, Some (Cells [Val None])]\<rparr> =
     Inr \<lparr>errno = 0, heap = [None, None, Some (Cells [Val None])]\<rparr>"
proof -
  let ?r = "\<lparr>rl_lines = Some (Ptr 2 0), rl_lineCount = Some 0\<rparr>"
  let ?s = "\<lparr>errno = 0, heap = [None, None, Some (Cells [Val None])]\<rparr>"
  have h1: "readLines (plain_env [CR, CR]) (Some ''f'') 0 True start = Inr (?r, ?s)"
    by code_simp
  have h2: "rl_lines ?r = Some (Ptr 2 0)" by simp
  have h3: "freeLines (Some (Ptr 2 0)) ?s = Inr \<lparr>errno = 0, heap = [None, None, None]\<rparr>"
    by code_simp
  have h4: "block_cells [None, None, Some (Cells [Val None])] 2 = Inr [Val None]"
    by code_simp
  from freeLines_releases [OF h1 h2] have h5: "freeLines None ?s = Inr ?s"
    by (elim exE conjE)
  from h1 h4 h3 h5 show ?thesis by (intro conjI)
qed

subsection \<open>errno\<close>

text \<open>
  Claim C10. A call of \<^verbatim>\<open>readFile\<close> that returns a buffer, and a call of \<^verbatim>\<open>readLines\<close>
  that returns a table, leave \<^verbatim>\<open>errno\<close> as it was on entry, whatever the library calls
  did to it in between. In the witness the shrinking \<^verbatim>\<open>realloc\<close> fails and sets
  \<^verbatim>\<open>errno\<close> to 12; \<^verbatim>\<open>errno\<close> was 7 on entry and is 7 on return.
\<close>

theorem errno_restored:
  "(readFile E fileName textMode terminate maxSize want s = Inr (r, s') \<and> rf_buf r \<noteq> None
      \<longrightarrow> errno s' = errno s) \<and>
   (readLines E fileName' maxSize' want' t = Inr (r', t') \<and> rl_lines r' \<noteq> None
      \<longrightarrow> errno t' = errno t)"
proof (intro conjI impI)
  assume "readFile E fileName textMode terminate maxSize want s = Inr (r, s') \<and> rf_buf r \<noteq> None"
  then obtain p where "readFile E fileName textMode terminate maxSize want s = Inr (r, s')"
    "rf_buf r = Some p" by auto
  from readFile_success [OF this] show "errno s' = errno s" by auto
next
  assume "readLines E fileName' maxSize' want' t = Inr (r', t') \<and> rl_lines r' \<noteq> None"
  then obtain p where "readLines E fileName' maxSize' want' t = Inr (r', t')"
    "rl_lines r' = Some p" by auto
  from readLines_success [OF this] show "errno t' = errno t" by auto
qed

theorem errno_restored_witness:
  "readFile realloc_fails_env (Some ''f'') 1 0 0 True \<lparr>errno = 7, heap = []\<rparr> =
     Inr (\<lparr>rf_buf = Some (Ptr 0 0), rf_length = Some 3\<rparr>,
          \<lparr>errno = 7, heap = [Some (Chars (''a'' @ [LF] @ ''b'' @ [NUL, NUL]))]\<rparr>) \<and>
   readLines realloc_fails_env (Some ''f'') 0 True \<lparr>errno = 7, heap = []\<rparr> =
     Inr (\<lparr>rl_lines = Some (Ptr 1 0), rl_lineCount = Some 2\<rparr>,
          \<lparr>errno = 7, heap = [Some (Chars (''a'' @ [NUL] @ ''b'' @ [NUL, NUL])),
             Some (Cells [Val (Some (Ptr 0 0)), Val (Some (Ptr 0 2)), Val None])]\<rparr>) \<and>
   errno \<lparr>errno = 7, heap = [Some (Chars (''a'' @ [LF] @ ''b'' @ [NUL, NUL]))]\<rparr>
     = errno \<lparr>errno = 7, heap = []\<rparr>"
proof -
  have h1: "readFile realloc_fails_env (Some ''f'') 1 0 0 True \<lparr>errno = 7, heap = []\<rparr> =
     Inr (\<lparr>rf_buf = Some (Ptr 0 0), rf_length = Some 3\<rparr>,
          \<lparr>errno = 7, heap = [Some (Chars (''a'' @ [LF] @ ''b'' @ [NUL, NUL]))]\<rparr>)"
    by code_simp
  have h2: "readLines realloc_fails_env (Some ''f'') 0 True \<lparr>errno = 7, heap = []\<rparr> =
     Inr (\<lparr>rl_lines = Some (Ptr 1 0), rl_lineCount = Some 2\<rparr>,
          \<lparr>errno = 7, heap = [Some (Chars (''a'' @ [NUL] @ ''b'' @ [NUL, NUL])),
             Some (Cells [Val (Some (Ptr 0 0)), Val (Some (Ptr 0 2)), Val None])]\<rparr>)"
    by code_simp
  from errno_restored [of realloc_fails_env "Some ''f''" 1 0 0 True "\<lparr>errno = 7, heap = []\<rparr>"
      "\<lparr>rf_buf = Some (Ptr 0 0), rf_length = Some 3\<rparr>"
      "\<lparr>errno = 7, heap = [Some (Chars (''a'' @ [LF] @ ''b'' @ [NUL, NUL]))]\<rparr>"] h1
  have "errno \<lparr>errno = 7, heap = [Some (Chars (''a'' @ [LF] @ ''b'' @ [NUL, NUL]))]\<rparr>
     = errno \<lparr>errno = 7, heap = []\<rparr>"
    by (simp del: cstate.simps)
  with h1 h2 show ?thesis by blast
qed

end
